theory Spec2Isabelle
  imports Main "HOL-Library.AList" "HOL-Library.Sublist"
begin

section \<open>The catalogue monitor of sheinverse\_women.py\<close>

text \<open>
  The program polls a paginated listing, tells its user about products it has not seen
  before and about growth of the declared total, and keeps a dictionary of tracked
  products. The embedding follows \<^verbatim>\<open>src/sheinverse_women.py\<close> function by function.

  What the program does beyond computing values is made explicit:
  \<^item> the network is a parameter \<open>fetch_page\<close>, giving for each page number either the
    decoded page or the exception raised by the request;
  \<^item> \<^verbatim>\<open>time.time()\<close> is a clock: a function \<open>tm\<close> from the number of readings taken so
    far to the value read, and a counter threaded through the code. The values read are
    opaque (a type variable), since the program only stores them;
  \<^item> the calls of \<^verbatim>\<open>send_telegram_message\<close>, \<^verbatim>\<open>save_state\<close> and \<^verbatim>\<open>time.sleep\<close> are
    recorded, in order, in a list of effects;
  \<^item> an exception is a value of type \<open>error\<close>.
  The \<^verbatim>\<open>print\<close> calls are not modelled.

  Two things are taken for granted about the data the program reads: the \<^verbatim>\<open>"products"\<close>
  value of a page, when present, is a list of JSON objects; and the state file, when
  present, is one the program has written. Every other value read from a response may be
  absent or of a type the program does not expect, and the exception raised then is part of
  the model.
\<close>

subsection \<open>Data\<close>

text \<open>
  \<open>RequestError\<close> is any exception of \<^verbatim>\<open>fetch_page\<close> (transport, HTTP status, decoding).
  \<open>TypeError\<close> also stands for the other exceptions of \<^verbatim>\<open>int\<close> (\<^verbatim>\<open>ValueError\<close> on text that
  is no number, \<^verbatim>\<open>OverflowError\<close> on an infinite number).
\<close>

datatype error = RequestError | KeyError | TypeError | AttributeError

text \<open>
  A value read from a JSON object under a key: the key is absent, or it holds a value of the
  type the program goes on to use, or it holds a value of another type (\<^verbatim>\<open>null\<close>, say), on
  which the program's next operation raises.
\<close>

datatype 'a field = Absent | Present 'a | Ill_typed

text \<open>
  A product is a JSON object. The program reads three things from it.
  \<^item> \<^verbatim>\<open>str(prod.get("code", ""))\<close>: \<open>prod_code\<close> is the text \<^verbatim>\<open>str\<close> gives for the value
    under \<^verbatim>\<open>"code"\<close>, or \<open>None\<close> when the key is absent; \<^verbatim>\<open>str\<close> raises on no value.
  \<^item> \<^verbatim>\<open>prod["price"]["displayformattedValue"]\<close>: \<open>prod_price\<close> is \<open>Absent\<close> when either
    subscript finds no key (\<^verbatim>\<open>KeyError\<close>), \<open>Ill_typed\<close> when the value under \<^verbatim>\<open>"price"\<close> is no
    object (\<^verbatim>\<open>TypeError\<close>), and otherwise the text the f-string gives for the value found.
  \<^item> \<^verbatim>\<open>prod.get("url", "")\<close>, on which \<^verbatim>\<open>startswith\<close> is called: \<open>prod_url\<close> is \<open>Ill_typed\<close>
    when the value is no text (\<^verbatim>\<open>AttributeError\<close>).
\<close>

record product =
  prod_code :: "string option"
  prod_price :: "string field"
  prod_url :: "string field"

text \<open>
  A page of the listing: the \<^verbatim>\<open>"products"\<close> field, and the \<^verbatim>\<open>"pagination"\<close> field with the
  two fields read from it. \<open>Present n\<close> is a value that \<^verbatim>\<open>int\<close> turns into \<open>n\<close>; the
  pagination is \<open>Ill_typed\<close> when it is no object, so that its \<^verbatim>\<open>get\<close> raises.
\<close>

record pagination =
  totalResults :: "int field"
  totalPages :: "int field"

record page =
  page_products :: "product list option"
  page_pagination :: "pagination field"

text \<open>What \<^verbatim>\<open>r.json()\<close> returns: a JSON object, or some other JSON value.\<close>

datatype body = Not_object | Object page

text \<open>
  The dictionary kept for one product code: \<^verbatim>\<open>"first_seen"\<close>, \<^verbatim>\<open>"last_seen"\<close> and the
  optional key \<^verbatim>\<open>"missing_since"\<close>.
\<close>

record 't info =
  first_seen :: 't
  last_seen :: 't
  missing_since :: "'t option"

text \<open>
  The program's state. Both dictionaries are association lists in insertion order, as
  Python keeps them, since the second loop of a cycle visits the keys in that order. The
  entry \<^verbatim>\<open>"summary_alerted"\<close> of the state file is never read or written by the loop and is
  left out.
\<close>

record 't state =
  seen_products :: "(string \<times> 't info) list"
  restock_alerted :: "(string \<times> bool) list"
  last_total_results :: int

text \<open>
  The text of a notification is determined by the values interpolated into it, which is
  what a message records: event type, link and price for a product, total and increase
  for a summary.
\<close>

datatype message =
  Product_message string string string
  | Summary_message int int

datatype 't effect =
  Send message
  | Save "'t state"
  | Sleep nat

definition POLL_INTERVAL_SEC :: nat where
  "POLL_INTERVAL_SEC = 10"

definition load_state_default :: "'t state" where
  "load_state_default = \<lparr>seen_products = [], restock_alerted = [], last_total_results = 0\<rparr>"

subsection \<open>Fetching\<close>

definition get_products :: "page \<Rightarrow> product list" where
  "get_products data = (case page_products data of None \<Rightarrow> [] | Some ps \<Rightarrow> ps)"

text \<open>\<^verbatim>\<open>int(d.get(key, default))\<close> for the value \<open>v\<close> found under the key.\<close>

definition py_int :: "int field \<Rightarrow> int \<Rightarrow> error + int" where
  "py_int v dflt =
     (case v of Absent \<Rightarrow> Inr dflt | Present n \<Rightarrow> Inr n | Ill_typed \<Rightarrow> Inl TypeError)"

text \<open>
  Lines 80 to 82: the pagination of the first page, \<^verbatim>\<open>total_results\<close> and \<^verbatim>\<open>total_pages\<close>.
  They stand outside the \<^verbatim>\<open>try\<close>, so what they raise leaves \<^verbatim>\<open>fetch_all_products\<close>.
\<close>

definition read_pagination :: "page \<Rightarrow> error + (int \<times> int)" where
  "read_pagination first =
     (case page_pagination first of
        Ill_typed \<Rightarrow> Inl AttributeError
      | Absent \<Rightarrow> Inr (0, 1)
      | Present pagination \<Rightarrow>
          (case py_int (totalResults pagination) 0 of
             Inl e \<Rightarrow> Inl e
           | Inr total_results \<Rightarrow>
               (case py_int (totalPages pagination) 1 of
                  Inl e \<Rightarrow> Inl e
                | Inr total_pages \<Rightarrow> Inr (total_results, total_pages))))"

text \<open>
  The loop over the pages after the first: an exception of a page, raised by the request or
  by \<^verbatim>\<open>data.get\<close> on a body that is no object, is caught, and the loop is left by
  \<^verbatim>\<open>break\<close> with the products collected so far.
\<close>

fun fetch_more :: "(nat \<Rightarrow> error + body) \<Rightarrow> nat list \<Rightarrow> product list \<Rightarrow> product list" where
  "fetch_more fetch_page [] products = products"
| "fetch_more fetch_page (n # ns) products =
     (case fetch_page n of
        Inl e \<Rightarrow> products
      | Inr Not_object \<Rightarrow> products
      | Inr (Object data) \<Rightarrow> fetch_more fetch_page ns (products @ get_products data))"

definition fetch_all_products :: "(nat \<Rightarrow> error + body) \<Rightarrow> error + (product list \<times> int)" where
  "fetch_all_products fetch_page =
     (case fetch_page 0 of
        Inl e \<Rightarrow> Inl e
      | Inr Not_object \<Rightarrow> Inl AttributeError
      | Inr (Object first) \<Rightarrow>
          (let products = get_products first in
           case read_pagination first of
             Inl e \<Rightarrow> Inl e
           | Inr (total_results, total_pages) \<Rightarrow>
               Inr (fetch_more fetch_page [1..<nat total_pages] products, total_results)))"

subsection \<open>Keys and messages\<close>

definition extract_product_key :: "product \<Rightarrow> string" where
  "extract_product_key p = (case prod_code p of None \<Rightarrow> [] | Some c \<Rightarrow> c)"

definition product_to_message :: "product \<Rightarrow> string \<Rightarrow> error + message" where
  "product_to_message p event_type =
     (case prod_price p of
        Absent \<Rightarrow> Inl KeyError
      | Ill_typed \<Rightarrow> Inl TypeError
      | Present price \<Rightarrow>
          (case prod_url p of
             Ill_typed \<Rightarrow> Inl AttributeError
           | Absent \<Rightarrow> Inr (Product_message event_type [] price)
           | Present url_path \<Rightarrow>
               (let link = (if take 1 url_path = ''/''
                            then ''https://www.sheinindia.in'' @ url_path else url_path)
                in Inr (Product_message event_type link price))))"

definition summary_alert_message :: "int \<Rightarrow> int \<Rightarrow> message" where
  "summary_alert_message current_total new_count = Summary_message current_total new_count"

subsection \<open>One cycle of the main loop\<close>

text \<open>The summary alert: the effects, and the new value of \<^verbatim>\<open>last_total_results\<close>.\<close>

definition summary_alert :: "int \<Rightarrow> int \<Rightarrow> 't effect list \<times> int" where
  "summary_alert current_total_results last_total =
     (if current_total_results > last_total
      then (let new_count = current_total_results - last_total
            in ([Send (summary_alert_message current_total_results new_count)],
                current_total_results))
      else ([], last_total))"

text \<open>
  The loop over the fetched products. It carries \<^verbatim>\<open>seen_products\<close>, \<^verbatim>\<open>current_codes\<close> and
  the clock counter. A new product whose message cannot be rendered makes
  \<^verbatim>\<open>product_to_message\<close> raise, after the product has been entered into \<^verbatim>\<open>seen_products\<close>;
  nothing catches the exception, so the program ends there, and the effects up to that
  point are what it has done.
\<close>

fun new_products ::
  "(nat \<Rightarrow> 't) \<Rightarrow> product list \<Rightarrow> (string \<times> 't info) list \<Rightarrow> string set \<Rightarrow> nat \<Rightarrow>
     't effect list \<times> (error + ((string \<times> 't info) list \<times> string set \<times> nat))" where
  "new_products tm [] seen cur c = ([], Inr (seen, cur, c))"
| "new_products tm (p # rest) seen cur c =
     (let key = extract_product_key p in
      if key = [] then new_products tm rest seen cur c
      else if map_of seen key \<noteq> None then new_products tm rest seen (insert key cur) c
      else
        (let seen' = AList.update key
               \<lparr>first_seen = tm c, last_seen = tm (Suc c), missing_since = None\<rparr> seen
         in case product_to_message p ''NEW'' of
              Inl e \<Rightarrow> ([], Inl e)
            | Inr msg \<Rightarrow>
                (case new_products tm rest seen' (insert key cur) (Suc (Suc c)) of
                   (out, r) \<Rightarrow> (Send msg # out, r))))"

text \<open>
  The loop over the keys of \<^verbatim>\<open>seen_products\<close>. Each round reads and changes the entry of
  its own key only, and a dictionary holds a key once, so the loop is a traversal of the
  entries in order. It carries \<^verbatim>\<open>restock_alerted\<close> and the clock counter.
\<close>

fun update_seen ::
  "(nat \<Rightarrow> 't) \<Rightarrow> string set \<Rightarrow> (string \<times> 't info) list \<Rightarrow> (string \<times> bool) list \<Rightarrow> nat \<Rightarrow>
     (string \<times> 't info) list \<times> (string \<times> bool) list \<times> nat" where
  "update_seen tm cur [] ra c = ([], ra, c)"
| "update_seen tm cur ((key, info) # rest) ra c =
     (if key \<notin> cur then
        (if missing_since info = None
         then (case update_seen tm cur rest ra (Suc c) of
                 (rest', r) \<Rightarrow> ((key, info\<lparr>missing_since := Some (tm c)\<rparr>) # rest', r))
         else (case update_seen tm cur rest ra c of
                 (rest', r) \<Rightarrow> ((key, info) # rest', r)))
      else
        (let ra' = (if missing_since info \<noteq> None \<and> map_of ra key \<noteq> Some True
                    then AList.update key True ra else ra)
         in case update_seen tm cur rest ra' (Suc c) of
              (rest', r) \<Rightarrow> ((key, info\<lparr>last_seen := tm c\<rparr>) # rest', r)))"

text \<open>
  The body of \<^verbatim>\<open>while True\<close>: the effects of the cycle, and either the exception that
  ended the program or the state and clock counter the next cycle starts from.
\<close>

definition main_cycle ::
  "(nat \<Rightarrow> 't) \<Rightarrow> (nat \<Rightarrow> error + body) \<Rightarrow> 't state \<times> nat \<Rightarrow>
     't effect list \<times> (error + ('t state \<times> nat))" where
  "main_cycle tm fetch_page sc =
     (case sc of (st, c) \<Rightarrow>
      (case fetch_all_products fetch_page of
         Inl e \<Rightarrow> ([Sleep POLL_INTERVAL_SEC], Inr (st, c))
       | Inr (products, current_total_results) \<Rightarrow>
           (case summary_alert current_total_results (last_total_results st) of
              (out1, last_total) \<Rightarrow>
                (case new_products tm products (seen_products st) {} c of
                   (out2, Inl e) \<Rightarrow> (out1 @ out2, Inl e)
                 | (out2, Inr (seen1, cur, c1)) \<Rightarrow>
                     (case update_seen tm cur seen1 (restock_alerted st) c1 of
                        (seen2, ra2, c2) \<Rightarrow>
                          (let st' = \<lparr>seen_products = seen2, restock_alerted = ra2,
                                      last_total_results = last_total\<rparr>
                           in (out1 @ out2 @ [Save st', Sleep POLL_INTERVAL_SEC],
                               Inr (st', c2))))))))"

text \<open>
  \<^verbatim>\<open>while True\<close> never returns. The model runs as many cycles as it is given networks, one
  per cycle, and stops early when a cycle raises.
\<close>

fun main_loop ::
  "(nat \<Rightarrow> 't) \<Rightarrow> (nat \<Rightarrow> error + body) list \<Rightarrow> 't state \<times> nat \<Rightarrow>
     't effect list \<times> (error + ('t state \<times> nat))" where
  "main_loop tm [] sc = ([], Inr sc)"
| "main_loop tm (fetch_page # nets) sc =
     (case main_cycle tm fetch_page sc of
        (out, Inl e) \<Rightarrow> (out, Inl e)
      | (out, Inr sc') \<Rightarrow>
          (case main_loop tm nets sc' of (out', r) \<Rightarrow> (out @ out', r)))"

subsection \<open>Reading a trace of effects\<close>

fun is_summary :: "'t effect \<Rightarrow> bool" where
  "is_summary (Send (Summary_message a b)) = True"
| "is_summary e = False"

fun is_new_alert :: "'t effect \<Rightarrow> bool" where
  "is_new_alert (Send (Product_message ty l pr)) = (ty = ''NEW'')"
| "is_new_alert e = False"

text \<open>The states written by \<^verbatim>\<open>save_state\<close>, in order.\<close>

fun saved_states :: "'t effect list \<Rightarrow> 't state list" where
  "saved_states [] = []"
| "saved_states (Save s # es) = s # saved_states es"
| "saved_states (e # es) = saved_states es"

text \<open>
  \<^verbatim>\<open>restock_alerted.get(key)\<close> is true. The only assignment to \<^verbatim>\<open>restock_alerted\<close> in the
  program is the one of the restock branch (line 183), which makes it true; \<open>raises\<close> counts,
  along a sequence of states, how often that happened for a key.
\<close>

definition alerted :: "'t state \<Rightarrow> string \<Rightarrow> bool" where
  "alerted st key = (map_of (restock_alerted st) key = Some True)"

fun raises :: "string \<Rightarrow> 't state list \<Rightarrow> nat" where
  "raises key (s # s' # ss) =
     (if \<not> alerted s key \<and> alerted s' key then 1 else 0) + raises key (s' # ss)"
| "raises key ss = 0"

subsection \<open>Reading a snapshot\<close>

text \<open>The keys that the loop over the products puts into \<^verbatim>\<open>current_codes\<close>.\<close>

definition snapshot_codes :: "product list \<Rightarrow> string set" where
  "snapshot_codes ps = set (filter (\<lambda>k. k \<noteq> []) (map extract_product_key ps))"

text \<open>
  The products of a snapshot that bring a key not yet known: for each such key its first
  product, in the order of the snapshot.
\<close>

fun fresh_products :: "string set \<Rightarrow> product list \<Rightarrow> product list" where
  "fresh_products known [] = []"
| "fresh_products known (p # ps) =
     (if extract_product_key p = [] \<or> extract_product_key p \<in> known
      then fresh_products known ps
      else p # fresh_products (insert (extract_product_key p) known) ps)"


text \<open>The keys seen in the snapshots of a run; a cycle whose fetch fails has no snapshot.\<close>

fun observed_codes :: "(nat \<Rightarrow> error + body) list \<Rightarrow> string set" where
  "observed_codes [] = {}"
| "observed_codes (net # nets) =
     (case fetch_all_products net of
        Inl e \<Rightarrow> {}
      | Inr (products, tot) \<Rightarrow> snapshot_codes products) \<union> observed_codes nets"

subsection \<open>Concrete inputs\<close>

definition item_a :: product where
  "item_a = \<lparr>prod_code = Some ''A'', prod_price = Present ''Rs.499'', prod_url = Present ''/p/a''\<rparr>"

definition item_b :: product where
  "item_b = \<lparr>prod_code = Some ''B'', prod_price = Present ''Rs.799'', prod_url = Present ''/p/b''\<rparr>"

text \<open>Every request fails.\<close>

definition net_down :: "nat \<Rightarrow> error + body" where
  "net_down n = Inl RequestError"


text \<open>Two pages, item a on the first and item b on the second.\<close>

definition net_two_pages :: "nat \<Rightarrow> error + body" where
  "net_two_pages n =
     (if n = 0
      then Inr (Object \<lparr>page_products = Some [item_a],
             page_pagination = Present \<lparr>totalResults = Present 2, totalPages = Present 2\<rparr>\<rparr>)
      else Inr (Object \<lparr>page_products = Some [item_b],
             page_pagination = Present \<lparr>totalResults = Present 2, totalPages = Present 2\<rparr>\<rparr>))"


text \<open>A clock whose readings are all different: the n-th reading is n.\<close>

definition tick :: "nat \<Rightarrow> nat" where
  "tick n = n"

text \<open>A state whose stored total is 5, and a listing that declares a total of 3.\<close>

definition st_total_five :: "nat state" where
  "st_total_five = \<lparr>seen_products = [], restock_alerted = [], last_total_results = 5\<rparr>"

definition net_total_three :: "nat \<Rightarrow> error + body" where
  "net_total_three n =
     (if n = 0
      then Inr (Object \<lparr>page_products = Some [],
             page_pagination = Present \<lparr>totalResults = Present 3, totalPages = Present 1\<rparr>\<rparr>)
      else Inl RequestError)"

text \<open>
  Item a was tracked and went missing at time 1; it has not been alerted as restocked. The
  listing holds item a again.
\<close>

definition st_missing_a :: "nat state" where
  "st_missing_a =
     \<lparr>seen_products = [(''A'', \<lparr>first_seen = 0, last_seen = 0, missing_since = Some 1\<rparr>)],
      restock_alerted = [], last_total_results = 1\<rparr>"

definition net_item_a :: "nat \<Rightarrow> error + body" where
  "net_item_a n =
     (if n = 0
      then Inr (Object \<lparr>page_products = Some [item_a],
             page_pagination = Present \<lparr>totalResults = Present 1, totalPages = Present 1\<rparr>\<rparr>)
      else Inl RequestError)"

text \<open>A product whose JSON has no price, alone on the listing.\<close>

definition item_no_price :: product where
  "item_no_price = \<lparr>prod_code = Some ''C'', prod_price = Absent, prod_url = Present ''/p/c''\<rparr>"

definition net_item_no_price :: "nat \<Rightarrow> error + body" where
  "net_item_no_price n =
     (if n = 0
      then Inr (Object \<lparr>page_products = Some [item_no_price],
             page_pagination = Present \<lparr>totalResults = Present 1, totalPages = Present 1\<rparr>\<rparr>)
      else Inl RequestError)"

text \<open>Item a is tracked and not missing; three clock readings have been taken.\<close>

definition st_tracked_a :: "nat state" where
  "st_tracked_a =
     \<lparr>seen_products = [(''A'', \<lparr>first_seen = 0, last_seen = 2, missing_since = None\<rparr>)],
      restock_alerted = [], last_total_results = 1\<rparr>"

text \<open>Item b and the product without price on one page.\<close>

definition net_b_c :: "nat \<Rightarrow> error + body" where
  "net_b_c n =
     (if n = 0
      then Inr (Object \<lparr>page_products = Some [item_b, item_no_price],
             page_pagination = Present \<lparr>totalResults = Present 2, totalPages = Present 1\<rparr>\<rparr>)
      else Inl RequestError)"

text \<open>Two cycles: item a is listed, then item b and the product without price.\<close>

definition run_b_then_raise :: "(nat \<Rightarrow> error + body) list" where
  "run_b_then_raise = [net_item_a, net_b_c]"

text \<open>
  Five cycles: item a is listed, gone, listed again, gone again, listed again. And three
  cycles with a failed fetch in the middle.
\<close>

definition run_a_comes_and_goes :: "(nat \<Rightarrow> error + body) list" where
  "run_a_comes_and_goes = [net_item_a, net_total_three, net_item_a, net_total_three, net_item_a]"

definition run_with_outage :: "(nat \<Rightarrow> error + body) list" where
  "run_with_outage = [net_item_a, net_down, net_two_pages]"

section \<open>Properties\<close>

subsection \<open>Fetching\<close>







subsection \<open>The shape of a cycle\<close>

lemma main_cycle_fetch_failed:
  "fetch_all_products net = Inl e \<Longrightarrow>
     main_cycle tm net (st, c) = ([Sleep POLL_INTERVAL_SEC], Inr (st, c))"
  by (simp add: main_cycle_def)

text \<open>
  Claim C8: when the fetch fails, the cycle sends nothing and saves nothing (its only effect
  is the sleep of the fixed interval), the state and the clock are what they were, and the
  loop goes on with the next cycle.
\<close>

theorem failed_fetch_skips_cycle:
  assumes "fetch_all_products net = Inl e"
  shows "main_cycle tm net (st, c) = ([Sleep POLL_INTERVAL_SEC], Inr (st, c)) \<and>
         main_loop tm (net # nets) (st, c) =
           (case main_loop tm nets (st, c) of (out, r) \<Rightarrow> (Sleep POLL_INTERVAL_SEC # out, r))"
  using assms by (simp add: main_cycle_fetch_failed split: prod.splits)

theorem failed_fetch_skips_cycle_witness:
  "fetch_all_products net_down = Inl RequestError \<and>
   main_cycle tick net_down (load_state_default, 0) =
     ([Sleep 10], Inr (load_state_default, 0)) \<and>
   main_loop tick [net_down, net_down] (load_state_default, 0) =
     ([Sleep 10, Sleep 10], Inr (load_state_default, 0))"
proof -
  have f: "fetch_all_products net_down = Inl RequestError"
    by (simp add: fetch_all_products_def net_down_def)
  show ?thesis
    using f failed_fetch_skips_cycle [OF f, of tick load_state_default 0 "[net_down]"]
      failed_fetch_skips_cycle [OF f, of tick load_state_default 0 "[]"]
    by (simp add: POLL_INTERVAL_SEC_def)
qed

subsection \<open>The total\<close>

lemma summary_alert_cases:
  "summary_alert tot prev =
     (if tot > prev then ([Send (Summary_message tot (tot - prev))], tot) else ([], prev))"
  by (simp add: summary_alert_def summary_alert_message_def Let_def)

lemma new_products_out:
  "new_products tm ps seen cur c = (out, r) \<Longrightarrow> \<forall>e \<in> set out. is_new_alert e"
proof (induction ps arbitrary: seen cur c out r)
  case Nil
  then show ?case by simp
next
  case (Cons p ps)
  then show ?case
    by (auto simp: Let_def product_to_message_def
        split: if_splits sum.splits option.splits prod.splits field.splits)
qed

lemma new_alert_not_summary: "is_new_alert e \<Longrightarrow> \<not> is_summary e"
  by (cases e rule: is_summary.cases) auto

lemma main_cycle_raised:
  assumes "fetch_all_products net = Inr (products, tot)"
    and "new_products tm products (seen_products st) {} c = (out2, Inl e)"
  shows "main_cycle tm net (st, c) =
           ((if tot > last_total_results st
             then [Send (Summary_message tot (tot - last_total_results st))] else []) @ out2,
            Inl e)"
  using assms by (simp add: main_cycle_def Let_def summary_alert_cases)

lemma main_cycle_completed:
  assumes "fetch_all_products net = Inr (products, tot)"
    and "new_products tm products (seen_products st) {} c = (out2, Inr (seen1, cur, c1))"
    and "update_seen tm cur seen1 (restock_alerted st) c1 = (seen2, ra2, c2)"
    and "st' = \<lparr>seen_products = seen2, restock_alerted = ra2,
                 last_total_results = max tot (last_total_results st)\<rparr>"
  shows "main_cycle tm net (st, c) =
           ((if tot > last_total_results st
             then [Send (Summary_message tot (tot - last_total_results st))] else []) @ out2 @
              [Save st', Sleep POLL_INTERVAL_SEC], Inr (st', c2))"
  using assms by (simp add: main_cycle_def Let_def summary_alert_cases)

lemma main_cycle_fetched_cases [consumes 2, case_names raised completed]:
  assumes "fetch_all_products net = Inr (products, tot)"
    and "main_cycle tm net (st, c) = (out, r)"
  obtains (raised) out2 e where
      "new_products tm products (seen_products st) {} c = (out2, Inl e)"
      "out = (if tot > last_total_results st
              then [Send (Summary_message tot (tot - last_total_results st))] else []) @ out2"
      "r = Inl e"
  | (completed) out2 seen1 cur c1 seen2 ra2 c2 where
      "new_products tm products (seen_products st) {} c = (out2, Inr (seen1, cur, c1))"
      "update_seen tm cur seen1 (restock_alerted st) c1 = (seen2, ra2, c2)"
      "out = (if tot > last_total_results st
              then [Send (Summary_message tot (tot - last_total_results st))] else []) @ out2 @
            [Save \<lparr>seen_products = seen2, restock_alerted = ra2,
                   last_total_results = max tot (last_total_results st)\<rparr>,
             Sleep POLL_INTERVAL_SEC]"
      "r = Inr (\<lparr>seen_products = seen2, restock_alerted = ra2,
                 last_total_results = max tot (last_total_results st)\<rparr>, c2)"
proof -
  obtain out2 r2 where np: "new_products tm products (seen_products st) {} c = (out2, r2)"
    by (cases "new_products tm products (seen_products st) {} c")
  show thesis
  proof (cases r2)
    case (Inl e)
    with np have np': "new_products tm products (seen_products st) {} c = (out2, Inl e)"
      by simp
    show ?thesis
      using raised [OF np'] main_cycle_raised [OF assms(1) np'] assms(2) by simp
  next
    case (Inr t)
    obtain seen1 cur c1 where t: "t = (seen1, cur, c1)" by (cases t)
    obtain seen2 ra2 c2 where us: "update_seen tm cur seen1 (restock_alerted st) c1 = (seen2, ra2, c2)"
      by (cases "update_seen tm cur seen1 (restock_alerted st) c1")
    from np Inr t have np': "new_products tm products (seen_products st) {} c = (out2, Inr (seen1, cur, c1))"
      by simp
    show ?thesis
      using completed [OF np' us] main_cycle_completed [OF assms(1) np' us refl] assms(2) by simp
  qed
qed

lemma main_cycle_summaries:
  assumes "fetch_all_products net = Inr (products, tot)"
    and "main_cycle tm net (st, c) = (out, r)"
  shows "filter is_summary out =
     (if tot > last_total_results st
      then [Send (Summary_message tot (tot - last_total_results st))] else [])"
  using assms
proof (cases rule: main_cycle_fetched_cases)
  case (raised out2 e)
  have "filter is_summary out2 = []"
    using new_products_out [OF raised(1)] new_alert_not_summary by (auto simp: filter_empty_conv)
  with raised(2) show ?thesis by auto
next
  case (completed out2 seen1 cur c1 seen2 ra2 c2)
  have "filter is_summary out2 = []"
    using new_products_out [OF completed(1)] new_alert_not_summary by (auto simp: filter_empty_conv)
  with completed(3) show ?thesis by auto
qed

lemma main_cycle_total:
  assumes "fetch_all_products net = Inr (products, tot)"
    and "main_cycle tm net (st, c) = (out, Inr (st', c'))"
  shows "last_total_results st' = max tot (last_total_results st)"
  using assms
proof (cases rule: main_cycle_fetched_cases)
  case (raised out2 e)
  then show ?thesis by simp
next
  case (completed out2 seen1 cur c1 seen2 ra2 c2)
  then show ?thesis by auto
qed

lemma main_cycle_saves:
  assumes "fetch_all_products net = Inr (products, tot)"
    and "main_cycle tm net (st, c) = (out, Inr (st', c'))"
  shows "\<exists>pre. out = pre @ [Save st', Sleep POLL_INTERVAL_SEC]"
  using assms
proof (cases rule: main_cycle_fetched_cases)
  case (raised out2 e)
  then show ?thesis by simp
next
  case (completed out2 seen1 cur c1 seen2 ra2 c2)
  then show ?thesis by auto
qed

lemma summary_in_filter:
  "Send (Summary_message a b) \<in> set out \<longleftrightarrow> Send (Summary_message a b) \<in> set (filter is_summary out)"
  by simp

lemma main_cycle_total_step:
  assumes "main_cycle tm net (st, c) = (out, Inr (st', c'))"
  shows "last_total_results st' =
     (case fetch_all_products net of
        Inl e \<Rightarrow> last_total_results st
      | Inr (products, tot) \<Rightarrow>
          if tot > last_total_results st then tot else last_total_results st)"
proof (cases "fetch_all_products net")
  case (Inl e)
  with assms main_cycle_fetch_failed [OF Inl, of tm st c] show ?thesis by simp
next
  case (Inr pt)
  obtain products tot where pt: "pt = (products, tot)" by (cases pt)
  with Inr have f: "fetch_all_products net = Inr (products, tot)" by simp
  from main_cycle_total [OF f assms] f show ?thesis by (simp add: max_def)
qed

lemma main_cycle_total_mono:
  assumes "main_cycle tm net (st, c) = (out, Inr (st', c'))"
  shows "last_total_results st \<le> last_total_results st'"
  using main_cycle_total_step [OF assms] by (auto split: sum.splits)

lemma main_loop_total_mono:
  "main_loop tm nets (st, c) = (out, Inr (st', c')) \<Longrightarrow>
     last_total_results st \<le> last_total_results st'"
proof (induction nets arbitrary: st c out)
  case Nil
  then show ?case by simp
next
  case (Cons net nets)
  obtain out1 r1 where m: "main_cycle tm net (st, c) = (out1, r1)"
    by (cases "main_cycle tm net (st, c)")
  show ?case
  proof (cases r1)
    case (Inl e)
    with Cons.prems m show ?thesis by simp
  next
    case (Inr sc1)
    obtain st1 c1 where sc1: "sc1 = (st1, c1)" by (cases sc1)
    obtain out2 r2 where l: "main_loop tm nets (st1, c1) = (out2, r2)"
      by (cases "main_loop tm nets (st1, c1)")
    from Cons.prems m Inr sc1 l have r2: "r2 = Inr (st', c')" by simp
    from m Inr sc1 have "last_total_results st \<le> last_total_results st1"
      using main_cycle_total_mono by blast
    moreover from Cons.IH l r2 have "last_total_results st1 \<le> last_total_results st'"
      by blast
    ultimately show ?thesis by simp
  qed
qed

text \<open>
  Claim C4: in a cycle whose fetch succeeded, a summary (stock update) notification is sent
  if and only if the fetched total is greater than the stored \<^verbatim>\<open>last_total_results\<close>;
  a summary that is sent carries the fetched total and the increase, fetched total minus
  stored total, which is positive; and at most one is sent. This holds for the effects of
  the cycle also when the cycle raises later on.
\<close>

theorem summary_alert_iff_total_increased:
  assumes "fetch_all_products net = Inr (products, tot)"
    and "main_cycle tm net (st, c) = (out, r)"
  shows "((\<exists>a b. Send (Summary_message a b) \<in> set out) \<longleftrightarrow> tot > last_total_results st) \<and>
         (\<forall>a b. Send (Summary_message a b) \<in> set out \<longrightarrow>
            a = tot \<and> b = tot - last_total_results st \<and> 0 < b) \<and>
         length (filter is_summary out) \<le> 1"
  unfolding summary_in_filter [of _ _ out] main_cycle_summaries [OF assms]
  by auto

theorem summary_alert_iff_total_increased_witness:
  "fetch_all_products net_two_pages = Inr ([item_a, item_b], 2) \<and>
   last_total_results (load_state_default :: nat state) < 2 \<and>
   filter is_summary (fst (main_cycle tick net_two_pages (load_state_default, 0))) =
     [Send (Summary_message 2 2)] \<and>
   Send (Summary_message 2 2) \<in> set (fst (main_cycle tick net_two_pages (load_state_default, 0)))"
proof -
  have f: "fetch_all_products net_two_pages = Inr ([item_a, item_b], 2)"
    by code_simp
  have m: "main_cycle tick net_two_pages (load_state_default, 0) =
             (fst (main_cycle tick net_two_pages (load_state_default, 0)),
              snd (main_cycle tick net_two_pages (load_state_default, 0)))"
    by simp
  have l: "last_total_results (load_state_default :: nat state) = 0"
    by (simp add: load_state_default_def)
  have e: "filter is_summary (fst (main_cycle tick net_two_pages (load_state_default, 0))) =
     [Send (Summary_message 2 2)]"
    by code_simp
  from summary_alert_iff_total_increased [OF f m] l e f show ?thesis
    by auto
qed

text \<open>
  Claim C3, as stated: when the fetched total is equal to or lower than the stored one, no
  total event is sent and the stored total is set to the fetched one. The second half fails
  for a lower total: with 5 stored and 3 fetched, the state saved by the cycle still holds 5.
\<close>

theorem lower_total_counterexample:
  "fetch_all_products net_total_three = Inr ([], 3) \<and>
   main_cycle tick net_total_three (st_total_five, 0) =
     ([Save st_total_five, Sleep 10], Inr (st_total_five, 0)) \<and>
   last_total_results st_total_five = 5"
  by code_simp

text \<open>
  Claim C3, amended: when the fetched total is equal to or lower than the stored one, the
  cycle sends no summary and the state it saves has the stored total unchanged.
\<close>

theorem no_summary_when_total_not_higher:
  assumes "fetch_all_products net = Inr (products, tot)"
    and "tot \<le> last_total_results st"
    and "main_cycle tm net (st, c) = (out, r)"
  shows "filter is_summary out = [] \<and>
         (\<forall>st' c'. r = Inr (st', c') \<longrightarrow>
            last_total_results st' = last_total_results st \<and> Save st' \<in> set out)"
proof -
  have a: "filter is_summary out = []"
    using main_cycle_summaries [OF assms(1,3)] assms(2) by simp
  have b: "last_total_results st' = last_total_results st \<and> Save st' \<in> set out"
    if "r = Inr (st', c')" for st' c'
  proof -
    from that assms(3) have m: "main_cycle tm net (st, c) = (out, Inr (st', c'))" by simp
    from main_cycle_total [OF assms(1) m] assms(2)
    have "last_total_results st' = last_total_results st" by simp
    moreover from main_cycle_saves [OF assms(1) m] have "Save st' \<in> set out" by auto
    ultimately show ?thesis by simp
  qed
  from a b show ?thesis by blast
qed

theorem no_summary_when_total_not_higher_witness:
  "fetch_all_products net_total_three = Inr ([], 3) \<and>
   3 \<le> last_total_results st_total_five \<and>
   filter is_summary (fst (main_cycle tick net_total_three (st_total_five, 0))) = [] \<and>
   last_total_results (fst (projr (snd (main_cycle tick net_total_three (st_total_five, 0))))) = 5"
proof -
  have f: "fetch_all_products net_total_three = Inr ([], 3)"
    by code_simp
  have l: "3 \<le> last_total_results st_total_five"
    by (simp add: st_total_five_def)
  have m: "main_cycle tick net_total_three (st_total_five, 0) =
     ([Save st_total_five, Sleep 10], Inr (st_total_five, 0))"
    by code_simp
  from no_summary_when_total_not_higher [OF f l m] f l m show ?thesis
    by (simp add: st_total_five_def)
qed

text \<open>
  Claim C10: over any number of cycles the stored \<^verbatim>\<open>last_total_results\<close> never decreases,
  and a cycle changes it only when the fetched total is greater, to that total: after a
  failed fetch, or a fetched total that is not greater, it is what it was.
\<close>

theorem last_total_results_never_decreases:
  "(main_loop tm nets (st, c) = (out, Inr (st', c')) \<longrightarrow>
      last_total_results st \<le> last_total_results st') \<and>
   (main_cycle tm net (st, c) = (out1, Inr (st1, c1)) \<longrightarrow>
      last_total_results st1 =
        (case fetch_all_products net of
           Inl e \<Rightarrow> last_total_results st
         | Inr (products, tot) \<Rightarrow>
             if tot > last_total_results st then tot else last_total_results st))"
  using main_loop_total_mono main_cycle_total_step by blast

theorem last_total_results_never_decreases_witness:
  "last_total_results (load_state_default :: nat state) = 0 \<and>
   last_total_results
     (fst (projr (snd (main_loop tick [net_total_three, net_two_pages] (load_state_default, 0))))) = 3 \<and>
   isl (snd (main_loop tick [net_total_three, net_two_pages] (load_state_default, 0))) = False"
proof -
  have a: "main_loop tick [net_total_three, net_two_pages] (load_state_default, 0) =
    (fst (main_loop tick [net_total_three, net_two_pages] (load_state_default, 0)),
     Inr (fst (projr (snd (main_loop tick [net_total_three, net_two_pages] (load_state_default, 0)))),
          snd (projr (snd (main_loop tick [net_total_three, net_two_pages] (load_state_default, 0))))))"
    by code_simp
  have b: "last_total_results
     (fst (projr (snd (main_loop tick [net_total_three, net_two_pages] (load_state_default, 0))))) = 3"
    by code_simp
  have c: "isl (snd (main_loop tick [net_total_three, net_two_pages] (load_state_default, 0))) = False"
    by code_simp
  from last_total_results_never_decreases [of tick "[net_total_three, net_two_pages]"
      load_state_default 0 _ _ _ net_down "[]" "load_state_default" 0] a b c
  show ?thesis
    by (simp add: load_state_default_def)
qed

subsection \<open>The loop over the fetched products\<close>

lemma snapshot_codes_Nil [simp]: "snapshot_codes [] = {}"
  by (simp add: snapshot_codes_def)

lemma snapshot_codes_Cons:
  "snapshot_codes (p # ps) =
     (if extract_product_key p = [] then snapshot_codes ps
      else insert (extract_product_key p) (snapshot_codes ps))"
  by (simp add: snapshot_codes_def)

lemma fresh_products_codes:
  "set (map extract_product_key (fresh_products known ps)) = snapshot_codes ps - known"
  by (induction ps arbitrary: known) (auto simp: snapshot_codes_Cons)

lemma fresh_products_distinct:
  "distinct (map extract_product_key (fresh_products known ps))"
proof (induction ps arbitrary: known)
  case Nil
  then show ?case by simp
next
  case (Cons p ps)
  have "extract_product_key p \<notin>
          set (map extract_product_key (fresh_products (insert (extract_product_key p) known) ps))"
    unfolding fresh_products_codes by simp
  with Cons show ?case by simp
qed

lemma fresh_products_subseq: "subseq (fresh_products known ps) ps"
  by (induction ps arbitrary: known) auto

lemma new_products_Cons_cases [consumes 1, case_names skip known fresh]:
  assumes "new_products tm (p # rest) seen cur c = (out, Inr (seen1, cur1, c1))"
  obtains (skip) "extract_product_key p = []"
      "new_products tm rest seen cur c = (out, Inr (seen1, cur1, c1))"
  | (known) "extract_product_key p \<noteq> []" "extract_product_key p \<in> fst ` set seen"
      "new_products tm rest seen (insert (extract_product_key p) cur) c =
         (out, Inr (seen1, cur1, c1))"
  | (fresh) msg out' where "extract_product_key p \<noteq> []"
      "extract_product_key p \<notin> fst ` set seen"
      "product_to_message p ''NEW'' = Inr msg" "out = Send msg # out'"
      "new_products tm rest
         (AList.update (extract_product_key p)
            \<lparr>first_seen = tm c, last_seen = tm (Suc c), missing_since = None\<rparr> seen)
         (insert (extract_product_key p) cur) (Suc (Suc c)) = (out', Inr (seen1, cur1, c1))"
proof (cases "extract_product_key p = []")
  case True
  with assms skip show ?thesis by simp
next
  case False
  show ?thesis
  proof (cases "map_of seen (extract_product_key p)")
    case (Some i)
    then have "extract_product_key p \<in> fst ` set seen"
      by (metis map_of_eq_None_iff option.distinct(1))
    with assms False Some known show ?thesis by simp
  next
    case None
    then have nin: "extract_product_key p \<notin> fst ` set seen"
      by (simp add: map_of_eq_None_iff)
    from assms False None obtain msg where msg: "product_to_message p ''NEW'' = Inr msg"
      by (cases "product_to_message p ''NEW''") (auto simp: Let_def)
    obtain out' r' where rec: "new_products tm rest
         (AList.update (extract_product_key p)
            \<lparr>first_seen = tm c, last_seen = tm (Suc c), missing_since = None\<rparr> seen)
         (insert (extract_product_key p) cur) (Suc (Suc c)) = (out', r')"
      by (cases "new_products tm rest
         (AList.update (extract_product_key p)
            \<lparr>first_seen = tm c, last_seen = tm (Suc c), missing_since = None\<rparr> seen)
         (insert (extract_product_key p) cur) (Suc (Suc c))")
    from assms False None msg rec have "out = Send msg # out'" "r' = Inr (seen1, cur1, c1)"
      by (simp_all add: Let_def)
    with fresh [OF False nin msg] rec show ?thesis by simp
  qed
qed

lemma new_products_codes:
  "new_products tm ps seen cur c = (out, Inr (seen1, cur1, c1)) \<Longrightarrow>
     cur1 = cur \<union> snapshot_codes ps \<and>
     fst ` set seen1 = fst ` set seen \<union> snapshot_codes ps \<and> c \<le> c1"
proof (induction ps arbitrary: seen cur c out)
  case Nil
  then show ?case by simp
next
  case (Cons p ps)
  from Cons.prems show ?case
  proof (cases rule: new_products_Cons_cases)
    case skip
    with Cons.IH show ?thesis by (simp add: snapshot_codes_Cons)
  next
    case known
    from Cons.IH [OF known(3)] known(1,2) show ?thesis
      by (auto simp: snapshot_codes_Cons)
  next
    case (fresh msg out')
    from Cons.IH [OF fresh(5)] fresh(1) show ?thesis
      by (auto simp: snapshot_codes_Cons AList.dom_update)
  qed
qed

lemma new_products_keeps:
  "new_products tm ps seen cur c = (out, Inr (seen1, cur1, c1)) \<Longrightarrow>
     map_of seen k = Some i \<Longrightarrow> map_of seen1 k = Some i"
proof (induction ps arbitrary: seen cur c out)
  case Nil
  then show ?case by simp
next
  case (Cons p ps)
  from Cons.prems(1) show ?case
  proof (cases rule: new_products_Cons_cases)
    case skip
    with Cons show ?thesis by blast
  next
    case known
    with Cons show ?thesis by blast
  next
    case (fresh msg out')
    from fresh(2) Cons.prems(2) have "k \<noteq> extract_product_key p"
      by (metis map_of_eq_None_iff option.distinct(1))
    with Cons.prems(2) have "map_of (AList.update (extract_product_key p)
            \<lparr>first_seen = tm c, last_seen = tm (Suc c), missing_since = None\<rparr> seen) k = Some i"
      by (simp add: AList.update_conv')
    with Cons.IH [OF fresh(5)] show ?thesis by blast
  qed
qed

lemma new_products_enters:
  "new_products tm ps seen cur c = (out, Inr (seen1, cur1, c1)) \<Longrightarrow>
     k \<in> snapshot_codes ps \<Longrightarrow> k \<notin> fst ` set seen \<Longrightarrow>
     \<exists>a. c \<le> a \<and> Suc a < c1 \<and>
       map_of seen1 k = Some \<lparr>first_seen = tm a, last_seen = tm (Suc a), missing_since = None\<rparr>"
proof (induction ps arbitrary: seen cur c out)
  case Nil
  then show ?case by simp
next
  case (Cons p ps)
  from Cons.prems(1) show ?case
  proof (cases rule: new_products_Cons_cases)
    case skip
    with Cons.prems(2) have "k \<in> snapshot_codes ps" by (simp add: snapshot_codes_Cons)
    from Cons.IH [OF skip(2) this Cons.prems(3)] show ?thesis .
  next
    case known
    with Cons.prems have "k \<in> snapshot_codes ps" by (auto simp: snapshot_codes_Cons)
    from Cons.IH [OF known(3) this Cons.prems(3)] show ?thesis .
  next
    case (fresh msg out')
    let ?seen = "AList.update (extract_product_key p)
            \<lparr>first_seen = tm c, last_seen = tm (Suc c), missing_since = None\<rparr> seen"
    show ?thesis
    proof (cases "k = extract_product_key p")
      case True
      have "map_of ?seen k = Some \<lparr>first_seen = tm c, last_seen = tm (Suc c), missing_since = None\<rparr>"
        using True by (simp add: AList.update_conv')
      from new_products_keeps [OF fresh(5) this] new_products_codes [OF fresh(5)]
      show ?thesis by auto
    next
      case False
      with Cons.prems(2) fresh(1) have in_rest: "k \<in> snapshot_codes ps"
        by (simp add: snapshot_codes_Cons)
      from False Cons.prems(3) have "k \<notin> fst ` set ?seen"
        by (simp add: AList.dom_update)
      from Cons.IH [OF fresh(5) in_rest this] show ?thesis
        by (metis Suc_leD)
    qed
  qed
qed

lemma new_products_alerts:
  "new_products tm ps seen cur c = (out, Inr (seen1, cur1, c1)) \<Longrightarrow>
     out = map (\<lambda>p. Send (projr (product_to_message p ''NEW''))) (fresh_products (fst ` set seen) ps)"
proof (induction ps arbitrary: seen cur c out)
  case Nil
  then show ?case by simp
next
  case (Cons p ps)
  from Cons.prems(1) show ?case
  proof (cases rule: new_products_Cons_cases)
    case skip
    with Cons.IH show ?thesis by simp
  next
    case known
    with Cons.IH show ?thesis by simp
  next
    case (fresh msg out')
    from Cons.IH [OF fresh(5)] fresh(1-4) show ?thesis
      by (simp add: AList.dom_update)
  qed
qed

lemma product_to_message_ok:
  "\<not> isl (product_to_message p event_type) \<longleftrightarrow>
     (\<exists>price. prod_price p = Present price) \<and> prod_url p \<noteq> Ill_typed"
  by (auto simp: product_to_message_def Let_def split: field.splits)

lemma new_products_completes:
  "\<forall>p \<in> set (fresh_products (fst ` set seen) ps). \<not> isl (product_to_message p ''NEW'') \<Longrightarrow>
     \<exists>out seen1 cur1 c1. new_products tm ps seen cur c = (out, Inr (seen1, cur1, c1))"
proof (induction ps arbitrary: seen cur c)
  case Nil
  then show ?case by simp
next
  case (Cons p ps)
  show ?case
  proof (cases "extract_product_key p = []")
    case True
    with Cons.prems have "\<forall>p \<in> set (fresh_products (fst ` set seen) ps). \<not> isl (product_to_message p ''NEW'')"
      by simp
    from Cons.IH [OF this, of cur c] True show ?thesis by simp
  next
    case False
    show ?thesis
    proof (cases "extract_product_key p \<in> fst ` set seen")
      case True
      then have lk: "map_of seen (extract_product_key p) \<noteq> None"
        by (simp add: map_of_eq_None_iff)
      from True Cons.prems
      have "\<forall>p \<in> set (fresh_products (fst ` set seen) ps). \<not> isl (product_to_message p ''NEW'')"
        by simp
      from Cons.IH [OF this, of "insert (extract_product_key p) cur" c] False lk
      show ?thesis by simp
    next
      case nin: False
      then have lk: "map_of seen (extract_product_key p) = None"
        by (simp add: map_of_eq_None_iff)
      let ?seen = "AList.update (extract_product_key p)
            \<lparr>first_seen = tm c, last_seen = tm (Suc c), missing_since = None\<rparr> seen"
      from False nin Cons.prems have pr: "\<not> isl (product_to_message p ''NEW'')"
        and rest: "\<forall>p \<in> set (fresh_products (fst ` set ?seen) ps). \<not> isl (product_to_message p ''NEW'')"
        by (simp_all add: AList.dom_update)
      from pr obtain msg where msg: "product_to_message p ''NEW'' = Inr msg"
        by (cases "product_to_message p ''NEW''") auto
      from Cons.IH [OF rest, of "insert (extract_product_key p) cur" "Suc (Suc c)"]
      obtain out seen1 cur1 c1 where
        "new_products tm ps ?seen (insert (extract_product_key p) cur) (Suc (Suc c)) =
           (out, Inr (seen1, cur1, c1))"
        by blast
      with False lk msg show ?thesis by (simp add: Let_def)
    qed
  qed
qed

subsection \<open>The loop over the tracked products\<close>

lemma update_seen_Cons_cases [consumes 1, case_names gone still_gone present]:
  assumes "update_seen tm cur ((key, info) # rest) ra c = (seen2, ra2, c2)"
  obtains (gone) rest' where "key \<notin> cur" "missing_since info = None"
      "seen2 = (key, info\<lparr>missing_since := Some (tm c)\<rparr>) # rest'"
      "update_seen tm cur rest ra (Suc c) = (rest', ra2, c2)"
  | (still_gone) rest' where "key \<notin> cur" "missing_since info \<noteq> None"
      "seen2 = (key, info) # rest'"
      "update_seen tm cur rest ra c = (rest', ra2, c2)"
  | (present) rest' where "key \<in> cur"
      "seen2 = (key, info\<lparr>last_seen := tm c\<rparr>) # rest'"
      "update_seen tm cur rest
         (if missing_since info \<noteq> None \<and> map_of ra key \<noteq> Some True
          then AList.update key True ra else ra) (Suc c) = (rest', ra2, c2)"
proof (cases "key \<in> cur")
  case True
  obtain rest' r where rec: "update_seen tm cur rest
         (if missing_since info \<noteq> None \<and> map_of ra key \<noteq> Some True
          then AList.update key True ra else ra) (Suc c) = (rest', r)"
    by (cases "update_seen tm cur rest
         (if missing_since info \<noteq> None \<and> map_of ra key \<noteq> Some True
          then AList.update key True ra else ra) (Suc c)")
  from assms True rec have "seen2 = (key, info\<lparr>last_seen := tm c\<rparr>) # rest'" "r = (ra2, c2)"
    by (simp_all add: Let_def)
  with present [OF True] rec show ?thesis by simp
next
  case False
  show ?thesis
  proof (cases "missing_since info = None")
    case True
    obtain rest' r where rec: "update_seen tm cur rest ra (Suc c) = (rest', r)"
      by (cases "update_seen tm cur rest ra (Suc c)")
    from assms False True rec
    have "seen2 = (key, info\<lparr>missing_since := Some (tm c)\<rparr>) # rest'" "r = (ra2, c2)"
      by simp_all
    with gone [OF False True] rec show ?thesis by simp
  next
    case nm: False
    obtain rest' r where rec: "update_seen tm cur rest ra c = (rest', r)"
      by (cases "update_seen tm cur rest ra c")
    from assms False nm rec have "seen2 = (key, info) # rest'" "r = (ra2, c2)"
      by simp_all
    with still_gone [OF False nm] rec show ?thesis by simp
  qed
qed

lemma update_seen_keys:
  "update_seen tm cur seen ra c = (seen2, ra2, c2) \<Longrightarrow>
     map fst seen2 = map fst seen \<and> c \<le> c2"
proof (induction seen arbitrary: ra c seen2 ra2 c2)
  case Nil
  then show ?case by simp
next
  case (Cons e seen)
  obtain key i where e: "e = (key, i)" by (cases e)
  from Cons.prems [unfolded e] show ?case
  proof (cases rule: update_seen_Cons_cases)
    case (gone rest')
    from Cons.IH [OF gone(4)] gone(3) e show ?thesis by simp
  next
    case (still_gone rest')
    from Cons.IH [OF still_gone(4)] still_gone(3) e show ?thesis by simp
  next
    case (present rest')
    from Cons.IH [OF present(3)] present(2) e show ?thesis by simp
  qed
qed

lemma update_seen_entry:
  "update_seen tm cur seen ra c = (seen2, ra2, c2) \<Longrightarrow> map_of seen k = Some i \<Longrightarrow>
     (if k \<in> cur then \<exists>b. c \<le> b \<and> b < c2 \<and> map_of seen2 k = Some (i\<lparr>last_seen := tm b\<rparr>)
      else if missing_since i = None
        then \<exists>b. c \<le> b \<and> b < c2 \<and> map_of seen2 k = Some (i\<lparr>missing_since := Some (tm b)\<rparr>)
        else map_of seen2 k = Some i)"
proof (induction seen arbitrary: ra c seen2 ra2 c2)
  case Nil
  then show ?case by simp
next
  case (Cons e seen)
  obtain key j where e: "e = (key, j)" by (cases e)
  show ?case
  proof (cases "k = key")
    case True
    with Cons.prems(2) e have ji: "j = i" by simp
    from Cons.prems(1) [unfolded e ji] show ?thesis
    proof (cases rule: update_seen_Cons_cases)
      case (gone rest')
      from update_seen_keys [OF gone(4)] have "c < c2" by simp
      with gone(1-3) True show ?thesis by auto
    next
      case (still_gone rest')
      with True show ?thesis by auto
    next
      case (present rest')
      from update_seen_keys [OF present(3)] have "c < c2" by simp
      with present(1,2) True show ?thesis by auto
    qed
  next
    case False
    with Cons.prems(2) e have lk: "map_of seen k = Some i" by simp
    from Cons.prems(1) [unfolded e] show ?thesis
    proof (cases rule: update_seen_Cons_cases)
      case (gone rest')
      from Cons.IH [OF gone(4) lk] gone(3) False show ?thesis
        by (auto split: if_splits intro: Suc_leD)
    next
      case (still_gone rest')
      from Cons.IH [OF still_gone(4) lk] still_gone(3) False show ?thesis
        by (auto split: if_splits)
    next
      case (present rest')
      from Cons.IH [OF present(3) lk] present(2) False show ?thesis
        by (auto split: if_splits intro: Suc_leD)
    qed
  qed
qed

lemma update_seen_flag_stays:
  "update_seen tm cur seen ra c = (seen2, ra2, c2) \<Longrightarrow> map_of ra k = Some True \<Longrightarrow>
     map_of ra2 k = Some True"
proof (induction seen arbitrary: ra c seen2 ra2 c2)
  case Nil
  then show ?case by simp
next
  case (Cons e seen)
  obtain key i where e: "e = (key, i)" by (cases e)
  from Cons.prems(1) [unfolded e] show ?case
  proof (cases rule: update_seen_Cons_cases)
    case (gone rest')
    from Cons.IH [OF gone(4) Cons.prems(2)] show ?thesis .
  next
    case (still_gone rest')
    from Cons.IH [OF still_gone(4) Cons.prems(2)] show ?thesis .
  next
    case (present rest')
    have "map_of (if missing_since i \<noteq> None \<and> map_of ra key \<noteq> Some True
                  then AList.update key True ra else ra) k = Some True"
      using Cons.prems(2) by (simp add: AList.update_conv')
    from Cons.IH [OF present(3) this] show ?thesis .
  qed
qed

lemma update_seen_flag_raised:
  "update_seen tm cur seen ra c = (seen2, ra2, c2) \<Longrightarrow> (k, i) \<in> set seen \<Longrightarrow>
     k \<in> cur \<Longrightarrow> missing_since i \<noteq> None \<Longrightarrow> map_of ra2 k = Some True"
proof (induction seen arbitrary: ra c seen2 ra2 c2)
  case Nil
  then show ?case by simp
next
  case (Cons e seen)
  obtain key j where e: "e = (key, j)" by (cases e)
  show ?case
  proof (cases "e = (k, i)")
    case True
    with e have kj: "key = k" "j = i" by simp_all
    from Cons.prems(1) [unfolded e kj] show ?thesis
    proof (cases rule: update_seen_Cons_cases)
      case (gone rest')
      with Cons.prems(3) show ?thesis by simp
    next
      case (still_gone rest')
      with Cons.prems(3) show ?thesis by simp
    next
      case (present rest')
      have "map_of (if missing_since i \<noteq> None \<and> map_of ra k \<noteq> Some True
                    then AList.update k True ra else ra) k = Some True"
        using Cons.prems(4) by (simp add: AList.update_conv')
      from update_seen_flag_stays [OF present(3) this] show ?thesis .
    qed
  next
    case False
    with Cons.prems(2) have mem: "(k, i) \<in> set seen" by simp
    from Cons.prems(1) [unfolded e] show ?thesis
    proof (cases rule: update_seen_Cons_cases)
      case (gone rest')
      from Cons.IH [OF gone(4) mem Cons.prems(3,4)] show ?thesis .
    next
      case (still_gone rest')
      from Cons.IH [OF still_gone(4) mem Cons.prems(3,4)] show ?thesis .
    next
      case (present rest')
      from Cons.IH [OF present(3) mem Cons.prems(3,4)] show ?thesis .
    qed
  qed
qed

lemma update_seen_flag_changed:
  "update_seen tm cur seen ra c = (seen2, ra2, c2) \<Longrightarrow> map_of ra2 k \<noteq> map_of ra k \<Longrightarrow>
     map_of ra2 k = Some True \<and> k \<in> cur \<and> (\<exists>i. (k, i) \<in> set seen \<and> missing_since i \<noteq> None)"
proof (induction seen arbitrary: ra c seen2 ra2 c2)
  case Nil
  then show ?case by simp
next
  case (Cons e seen)
  obtain key j where e: "e = (key, j)" by (cases e)
  from Cons.prems(1) [unfolded e] show ?case
  proof (cases rule: update_seen_Cons_cases)
    case (gone rest')
    from Cons.IH [OF gone(4) Cons.prems(2)] show ?thesis by auto
  next
    case (still_gone rest')
    from Cons.IH [OF still_gone(4) Cons.prems(2)] show ?thesis by auto
  next
    case (present rest')
    let ?ra = "if missing_since j \<noteq> None \<and> map_of ra key \<noteq> Some True
               then AList.update key True ra else ra"
    show ?thesis
    proof (cases "map_of ra2 k = map_of ?ra k")
      case True
      with Cons.prems(2) have ch: "map_of ?ra k \<noteq> map_of ra k" by simp
      then have upd: "missing_since j \<noteq> None" "map_of ra key \<noteq> Some True"
        by (auto split: if_splits)
      with ch have kk: "k = key"
        by (auto simp: AList.update_conv' split: if_splits)
      with upd have "map_of ?ra k = Some True" by (simp add: AList.update_conv')
      with True kk upd present(1) e show ?thesis by auto
    next
      case False
      from Cons.IH [OF present(3) False] show ?thesis by auto
    qed
  qed
qed

subsection \<open>A cycle that completes\<close>

lemma main_cycle_completed_cases [consumes 2, case_names completed]:
  assumes "fetch_all_products net = Inr (products, tot)"
    and "main_cycle tm net (st, c) = (out, Inr (st', c'))"
  obtains out2 seen1 c1 where
      "new_products tm products (seen_products st) {} c =
         (out2, Inr (seen1, snapshot_codes products, c1))"
      "update_seen tm (snapshot_codes products) seen1 (restock_alerted st) c1 =
         (seen_products st', restock_alerted st', c')"
      "out = (if tot > last_total_results st
              then [Send (Summary_message tot (tot - last_total_results st))] else []) @ out2 @
            [Save st', Sleep POLL_INTERVAL_SEC]"
  using assms
proof (cases rule: main_cycle_fetched_cases)
  case (raised out2 e)
  then show ?thesis by simp
next
  case (completed out2 seen1 cur c1 seen2 ra2 c2)
  from new_products_codes [OF completed(1)] have "cur = snapshot_codes products" by simp
  with completed that show ?thesis by auto
qed

lemma main_cycle_codes:
  assumes "fetch_all_products net = Inr (products, tot)"
    and "main_cycle tm net (st, c) = (out, Inr (st', c'))"
  shows "fst ` set (seen_products st') = fst ` set (seen_products st) \<union> snapshot_codes products"
  using assms
proof (cases rule: main_cycle_completed_cases)
  case (completed out2 seen1 c1)
  from update_seen_keys [OF completed(2)]
  have "fst ` set (seen_products st') = fst ` set seen1"
    by (metis list.set_map)
  with new_products_codes [OF completed(1)] show ?thesis by simp
qed

lemma main_cycle_present_entry:
  assumes "fetch_all_products net = Inr (products, tot)"
    and "main_cycle tm net (st, c) = (out, Inr (st', c'))"
    and "map_of (seen_products st) k = Some i"
    and "k \<in> snapshot_codes products"
  shows "\<exists>b. c \<le> b \<and> b < c' \<and> map_of (seen_products st') k = Some (i\<lparr>last_seen := tm b\<rparr>)"
  using assms(1,2)
proof (cases rule: main_cycle_completed_cases)
  case (completed out2 seen1 c1)
  from new_products_keeps [OF completed(1) assms(3)] have "map_of seen1 k = Some i" .
  from update_seen_entry [OF completed(2) this] assms(4) new_products_codes [OF completed(1)]
  show ?thesis by (metis le_trans)
qed

lemma main_cycle_absent_entry:
  assumes "fetch_all_products net = Inr (products, tot)"
    and "main_cycle tm net (st, c) = (out, Inr (st', c'))"
    and "map_of (seen_products st) k = Some i"
    and "k \<notin> snapshot_codes products"
  shows "if missing_since i = None
         then \<exists>b. c \<le> b \<and> b < c' \<and>
                map_of (seen_products st') k = Some (i\<lparr>missing_since := Some (tm b)\<rparr>)
         else map_of (seen_products st') k = Some i"
  using assms(1,2)
proof (cases rule: main_cycle_completed_cases)
  case (completed out2 seen1 c1)
  from new_products_keeps [OF completed(1) assms(3)] have s1: "map_of seen1 k = Some i" .
  from new_products_codes [OF completed(1)] have cc: "c \<le> c1" by simp
  show ?thesis
  proof (cases "missing_since i = None")
    case True
    with update_seen_entry [OF completed(2) s1] assms(4) obtain b where
      "c1 \<le> b" "b < c'" "map_of (seen_products st') k = Some (i\<lparr>missing_since := Some (tm b)\<rparr>)"
      by auto
    with cc True show ?thesis by (auto intro: le_trans)
  next
    case False
    with update_seen_entry [OF completed(2) s1] assms(4) show ?thesis by auto
  qed
qed

lemma main_cycle_new_entry:
  assumes "fetch_all_products net = Inr (products, tot)"
    and "main_cycle tm net (st, c) = (out, Inr (st', c'))"
    and "k \<in> snapshot_codes products"
    and "k \<notin> fst ` set (seen_products st)"
  shows "\<exists>a b. c \<le> a \<and> a < b \<and> b < c' \<and>
           map_of (seen_products st') k =
             Some \<lparr>first_seen = tm a, last_seen = tm b, missing_since = None\<rparr>"
  using assms(1,2)
proof (cases rule: main_cycle_completed_cases)
  case (completed out2 seen1 c1)
  from new_products_enters [OF completed(1) assms(3,4)] obtain a where
    a: "c \<le> a" "Suc a < c1"
      "map_of seen1 k = Some \<lparr>first_seen = tm a, last_seen = tm (Suc a), missing_since = None\<rparr>"
    by blast
  from update_seen_entry [OF completed(2) a(3)] assms(3) obtain b where
    b: "c1 \<le> b" "b < c'"
      "map_of (seen_products st') k =
         Some (\<lparr>first_seen = tm a, last_seen = tm (Suc a), missing_since = None\<rparr>
                 \<lparr>last_seen := tm b\<rparr>)"
    by auto
  from a b have "a < b" by simp
  with a(1) b(2,3) show ?thesis by auto
qed

lemma main_cycle_new_alerts:
  assumes "fetch_all_products net = Inr (products, tot)"
    and "main_cycle tm net (st, c) = (out, Inr (st', c'))"
  shows "filter is_new_alert out =
           map (\<lambda>p. Send (projr (product_to_message p ''NEW'')))
             (fresh_products (fst ` set (seen_products st)) products)"
  using assms(1,2)
proof (cases rule: main_cycle_completed_cases)
  case (completed out2 seen1 c1)
  have "filter is_new_alert out2 = out2"
    using new_products_out [OF completed(1)] by (simp add: filter_id_conv)
  with completed(3) new_products_alerts [OF completed(1)] show ?thesis by simp
qed

lemma main_cycle_completes:
  assumes "fetch_all_products net = Inr (products, tot)"
    and "\<forall>p \<in> set (fresh_products (fst ` set (seen_products st)) products). \<not> isl (product_to_message p ''NEW'')"
  shows "\<exists>out st' c'. main_cycle tm net (st, c) = (out, Inr (st', c'))"
proof -
  from new_products_completes [OF assms(2), of tm "{}" c] obtain out2 seen1 cur1 c1 where
    np: "new_products tm products (seen_products st) {} c = (out2, Inr (seen1, cur1, c1))"
    by blast
  obtain seen2 ra2 c2 where
    us: "update_seen tm cur1 seen1 (restock_alerted st) c1 = (seen2, ra2, c2)"
    by (cases "update_seen tm cur1 seen1 (restock_alerted st) c1")
  from main_cycle_completed [OF assms(1) np us refl] show ?thesis by blast
qed

lemma main_cycle_flag_stays:
  assumes "main_cycle tm net (st, c) = (out, Inr (st', c'))" and "alerted st k"
  shows "alerted st' k"
proof (cases "fetch_all_products net")
  case (Inl e)
  from main_cycle_fetch_failed [OF Inl, of tm st c] assms show ?thesis by simp
next
  case (Inr pt)
  obtain products tot where "pt = (products, tot)" by (cases pt)
  with Inr have f: "fetch_all_products net = Inr (products, tot)" by simp
  from f assms(1) show ?thesis
  proof (cases rule: main_cycle_completed_cases)
    case (completed out2 seen1 c1)
    from update_seen_flag_stays [OF completed(2)] assms(2) show ?thesis
      by (simp add: alerted_def)
  qed
qed

lemma main_cycle_flag_raised:
  assumes "fetch_all_products net = Inr (products, tot)"
    and "main_cycle tm net (st, c) = (out, Inr (st', c'))"
    and "map_of (seen_products st) k = Some i"
    and "k \<in> snapshot_codes products"
    and "missing_since i \<noteq> None"
  shows "alerted st' k"
  using assms(1,2)
proof (cases rule: main_cycle_completed_cases)
  case (completed out2 seen1 c1)
  from new_products_keeps [OF completed(1) assms(3)] have "(k, i) \<in> set seen1"
    by (rule map_of_SomeD)
  from update_seen_flag_raised [OF completed(2) this assms(4,5)] show ?thesis
    by (simp add: alerted_def)
qed

subsection \<open>Runs of several cycles\<close>

lemma saved_states_append: "saved_states (es @ fs) = saved_states es @ saved_states fs"
  by (induction es rule: saved_states.induct) simp_all

lemma saved_states_new_products:
  "new_products tm ps seen cur c = (out, r) \<Longrightarrow> saved_states out = []"
proof -
  assume "new_products tm ps seen cur c = (out, r)"
  from new_products_out [OF this] show ?thesis
  proof (induction out)
    case Nil
    then show ?case by simp
  next
    case (Cons e es)
    then show ?case by (cases e) simp_all
  qed
qed

lemma main_loop_Cons_cases [consumes 1, case_names raised continued]:
  assumes "main_loop tm (net # nets) (st, c) = (out, r)"
  obtains (raised) e where "main_cycle tm net (st, c) = (out, Inl e)" "r = Inl e"
  | (continued) out1 st1 c1 out' where "main_cycle tm net (st, c) = (out1, Inr (st1, c1))"
      "main_loop tm nets (st1, c1) = (out', r)" "out = out1 @ out'"
proof -
  obtain out1 r1 where m: "main_cycle tm net (st, c) = (out1, r1)"
    by (cases "main_cycle tm net (st, c)")
  show thesis
  proof (cases r1)
    case (Inl e)
    with m assms have "main_cycle tm net (st, c) = (out, Inl e)" "r = Inl e" by simp_all
    then show ?thesis by (rule raised)
  next
    case (Inr sc1)
    obtain st1 c1 where sc1: "sc1 = (st1, c1)" by (cases sc1)
    obtain out' r' where l: "main_loop tm nets (st1, c1) = (out', r')"
      by (cases "main_loop tm nets (st1, c1)")
    from m Inr sc1 l assms have "out = out1 @ out'" "r' = r" by simp_all
    with m Inr sc1 l have "main_cycle tm net (st, c) = (out1, Inr (st1, c1))"
      "main_loop tm nets (st1, c1) = (out', r)" "out = out1 @ out'" by simp_all
    then show ?thesis by (rule continued)
  qed
qed

lemma main_cycle_saved:
  assumes "main_cycle tm net (st, c) = (out, r)"
  shows "(\<exists>e. r = Inl e \<and> saved_states out = []) \<or>
         (\<exists>c'. r = Inr (st, c') \<and> saved_states out = []) \<or>
         (\<exists>st' c'. r = Inr (st', c') \<and> saved_states out = [st'])"
proof (cases "fetch_all_products net")
  case (Inl e)
  from main_cycle_fetch_failed [OF Inl, of tm st c] assms show ?thesis by auto
next
  case (Inr pt)
  obtain products tot where "pt = (products, tot)" by (cases pt)
  with Inr have f: "fetch_all_products net = Inr (products, tot)" by simp
  from f assms show ?thesis
  proof (cases rule: main_cycle_fetched_cases)
    case (raised out2 e)
    with saved_states_new_products [OF raised(1)] show ?thesis
      by (simp add: saved_states_append)
  next
    case (completed out2 seen1 cur c1 seen2 ra2 c2)
    with saved_states_new_products [OF completed(1)] show ?thesis
      by (simp add: saved_states_append)
  qed
qed

lemma main_cycle_sends:
  assumes "main_cycle tm net (st, c) = (out, r)" and "e \<in> set out" and "e = Send m"
  shows "is_summary e \<or> is_new_alert e"
proof (cases "fetch_all_products net")
  case (Inl err)
  from main_cycle_fetch_failed [OF Inl, of tm st c] assms show ?thesis by auto
next
  case (Inr pt)
  obtain products tot where "pt = (products, tot)" by (cases pt)
  with Inr have f: "fetch_all_products net = Inr (products, tot)" by simp
  from f assms(1) show ?thesis
  proof (cases rule: main_cycle_fetched_cases)
    case (raised out2 err)
    from new_products_out [OF raised(1)]
    have "e \<in> set out2 \<Longrightarrow> is_new_alert e" by blast
    with raised(2) assms(2) show ?thesis
      by (cases "tot > last_total_results st") auto
  next
    case (completed out2 seen1 cur c1 seen2 ra2 c2)
    from new_products_out [OF completed(1)]
    have "e \<in> set out2 \<Longrightarrow> is_new_alert e" by blast
    with completed(3) assms(2,3) show ?thesis
      by (cases "tot > last_total_results st") auto
  qed
qed

lemma main_cycle_keeps_codes:
  assumes "main_cycle tm net (st, c) = (out, Inr (st', c'))"
  shows "fst ` set (seen_products st') =
           fst ` set (seen_products st) \<union> observed_codes [net]"
proof (cases "fetch_all_products net")
  case (Inl e)
  from main_cycle_fetch_failed [OF Inl, of tm st c] assms Inl show ?thesis by simp
next
  case (Inr pt)
  obtain products tot where "pt = (products, tot)" by (cases pt)
  with Inr have f: "fetch_all_products net = Inr (products, tot)" by simp
  from main_cycle_codes [OF f assms] f show ?thesis by simp
qed

lemma main_loop_codes:
  "main_loop tm nets (st, c) = (out, Inr (st', c')) \<Longrightarrow>
     fst ` set (seen_products st') = fst ` set (seen_products st) \<union> observed_codes nets"
proof (induction nets arbitrary: st c out)
  case Nil
  then show ?case by simp
next
  case (Cons net nets)
  from Cons.prems show ?case
  proof (cases rule: main_loop_Cons_cases)
    case (raised e)
    then show ?thesis by simp
  next
    case (continued out1 st1 c1 out')
    from main_cycle_keeps_codes [OF continued(1)] Cons.IH [OF continued(2)]
    show ?thesis by auto
  qed
qed

lemma main_loop_saved_codes:
  "main_loop tm nets (st, c) = (out, r) \<Longrightarrow> s \<in> set (saved_states out) \<Longrightarrow>
     fst ` set (seen_products st) \<subseteq> fst ` set (seen_products s)"
proof (induction nets arbitrary: st c out)
  case Nil
  then show ?case by simp
next
  case (Cons net nets)
  from Cons.prems(1) show ?case
  proof (cases rule: main_loop_Cons_cases)
    case (raised e)
    with main_cycle_saved [OF raised(1)] Cons.prems(2) show ?thesis by simp
  next
    case (continued out1 st1 c1 out')
    from main_cycle_keeps_codes [OF continued(1)]
    have sub: "fst ` set (seen_products st) \<subseteq> fst ` set (seen_products st1)" by blast
    from Cons.prems(2) continued(3)
    have "s \<in> set (saved_states out1) \<or> s \<in> set (saved_states out')"
      by (simp add: saved_states_append)
    then show ?thesis
    proof
      assume "s \<in> set (saved_states out1)"
      with main_cycle_saved [OF continued(1)] have "s = st1" by auto
      with sub show ?thesis by simp
    next
      assume "s \<in> set (saved_states out')"
      from Cons.IH [OF continued(2) this] sub show ?thesis by blast
    qed
  qed
qed

lemma main_loop_sends:
  "main_loop tm nets (st, c) = (out, r) \<Longrightarrow> e \<in> set out \<Longrightarrow> e = Send m \<Longrightarrow>
     is_summary e \<or> is_new_alert e"
proof (induction nets arbitrary: st c out)
  case Nil
  then show ?case by simp
next
  case (Cons net nets)
  from Cons.prems(1) show ?case
  proof (cases rule: main_loop_Cons_cases)
    case (raised err)
    from main_cycle_sends [OF raised(1) Cons.prems(2,3)] show ?thesis .
  next
    case (continued out1 st1 c1 out')
    from Cons.prems(2) continued(3) have "e \<in> set out1 \<or> e \<in> set out'" by simp
    then show ?thesis
    proof
      assume "e \<in> set out1"
      from main_cycle_sends [OF continued(1) this Cons.prems(3)] show ?thesis .
    next
      assume "e \<in> set out'"
      from Cons.IH [OF continued(2) this Cons.prems(3)] show ?thesis .
    qed
  qed
qed

lemma main_loop_raises:
  "main_loop tm nets (st, c) = (out, r) \<Longrightarrow>
     raises k (st # saved_states out) \<le> (if alerted st k then 0 else 1) \<and>
     (alerted st k \<longrightarrow> (\<forall>s \<in> set (saved_states out). alerted s k))"
proof (induction nets arbitrary: st c out)
  case Nil
  then show ?case by simp
next
  case (Cons net nets)
  from Cons.prems show ?case
  proof (cases rule: main_loop_Cons_cases)
    case (raised e)
    with main_cycle_saved [OF raised(1)] show ?thesis by simp
  next
    case (continued out1 st1 c1 out')
    note ih = Cons.IH [OF continued(2)]
    have stay: "alerted st k \<Longrightarrow> alerted st1 k"
      using main_cycle_flag_stays [OF continued(1)] .
    from main_cycle_saved [OF continued(1)]
    have "(st1 = st \<and> saved_states out1 = []) \<or> saved_states out1 = [st1]" by auto
    then show ?thesis
    proof
      assume "st1 = st \<and> saved_states out1 = []"
      with ih continued(3) show ?thesis by (simp add: saved_states_append)
    next
      assume "saved_states out1 = [st1]"
      with continued(3) have so: "saved_states out = st1 # saved_states out'"
        by (simp add: saved_states_append)
      show ?thesis
      proof (cases "alerted st k")
        case True
        with stay have "alerted st1 k" by simp
        with ih True show ?thesis unfolding so by simp
      next
        case False
        with ih show ?thesis unfolding so by (cases "alerted st1 k") simp_all
      qed
    qed
  qed
qed

lemma main_loop_flag_stays:
  "main_loop tm nets (st, c) = (out, Inr (st', c')) \<Longrightarrow> alerted st k \<Longrightarrow> alerted st' k"
proof (induction nets arbitrary: st c out)
  case Nil
  then show ?case by simp
next
  case (Cons net nets)
  from Cons.prems(1) show ?case
  proof (cases rule: main_loop_Cons_cases)
    case (raised e)
    then show ?thesis by simp
  next
    case (continued out1 st1 c1 out')
    from main_cycle_flag_stays [OF continued(1) Cons.prems(2)] have "alerted st1 k" .
    from Cons.IH [OF continued(2) this] show ?thesis .
  qed
qed

subsection \<open>Reappearing products\<close>

text \<open>
  Claim C1 asks for one restock notification when a product that was missing, and not yet
  alerted, is listed again. The code marks the product as alerted and sends nothing: here
  item a, missing since 1, is listed again, and the effects of the cycle are the save and
  the sleep.
\<close>

theorem restock_sends_no_notification:
  "main_cycle tick net_item_a (st_missing_a, 2) =
     ([Save \<lparr>seen_products = [(''A'', \<lparr>first_seen = 0, last_seen = 2, missing_since = Some 1\<rparr>)],
             restock_alerted = [(''A'', True)], last_total_results = 1\<rparr>,
       Sleep 10],
      Inr (\<lparr>seen_products = [(''A'', \<lparr>first_seen = 0, last_seen = 2, missing_since = Some 1\<rparr>)],
             restock_alerted = [(''A'', True)], last_total_results = 1\<rparr>, 3))"
  by code_simp

text \<open>
  Claim C2, as stated: a product that was missing and is listed again has its
  \<^verbatim>\<open>missing_since\<close> cleared. The code never removes that key: item a, missing since 1 and
  listed again, still has it after the cycle.
\<close>

theorem missing_since_not_cleared_counterexample:
  "map_of (seen_products st_missing_a) ''A'' =
     Some \<lparr>first_seen = 0, last_seen = 0, missing_since = Some 1\<rparr> \<and>
   fetch_all_products net_item_a = Inr ([item_a], 1) \<and>
   extract_product_key item_a = ''A'' \<and>
   \<not> isl (snd (main_cycle tick net_item_a (st_missing_a, 2))) \<and>
   map_of (seen_products (fst (projr (snd (main_cycle tick net_item_a (st_missing_a, 2)))))) ''A'' =
     Some \<lparr>first_seen = 0, last_seen = 2, missing_since = Some 1\<rparr>"
  by code_simp

text \<open>
  Claim C2, amended: in every cycle that completes (its fetch succeeds and it reaches the
  save), a product of the prior state that has \<^verbatim>\<open>missing_since\<close> set and is in the current
  snapshot keeps \<^verbatim>\<open>missing_since\<close> and \<^verbatim>\<open>first_seen\<close> as they were and has \<^verbatim>\<open>last_seen\<close>
  set to a clock reading of the cycle, whatever \<^verbatim>\<open>restock_alerted\<close> holds.
\<close>

theorem reappearance_keeps_missing_since:
  assumes "fetch_all_products net = Inr (products, tot)"
    and "main_cycle tm net (st, c) = (out, Inr (st', c'))"
    and "map_of (seen_products st) k = Some i"
    and "missing_since i = Some t"
    and "k \<in> snapshot_codes products"
  shows "\<exists>i'. map_of (seen_products st') k = Some i' \<and> missing_since i' = Some t \<and>
           first_seen i' = first_seen i \<and> (\<exists>b. c \<le> b \<and> b < c' \<and> last_seen i' = tm b)"
proof -
  from main_cycle_present_entry [OF assms(1,2,3,5)] obtain b where
    "c \<le> b" "b < c'" "map_of (seen_products st') k = Some (i\<lparr>last_seen := tm b\<rparr>)"
    by blast
  with assms(4) show ?thesis by auto
qed

theorem reappearance_keeps_missing_since_witness:
  "fetch_all_products net_item_a = Inr ([item_a], 1) \<and>
   map_of (seen_products st_missing_a) ''A'' =
     Some \<lparr>first_seen = 0, last_seen = 0, missing_since = Some 1\<rparr> \<and>
   ''A'' \<in> snapshot_codes [item_a] \<and>
   (\<exists>i'. map_of (seen_products (fst (projr (snd (main_cycle tick net_item_a (st_missing_a, 2))))))
           ''A'' = Some i' \<and> missing_since i' = Some 1)"
proof -
  have f: "fetch_all_products net_item_a = Inr ([item_a], 1)"
    by code_simp
  have l: "map_of (seen_products st_missing_a) ''A'' =
     Some \<lparr>first_seen = 0, last_seen = 0, missing_since = Some 1\<rparr>"
    by (simp add: st_missing_a_def)
  have k: "''A'' \<in> snapshot_codes [item_a]"
    by (simp add: snapshot_codes_def extract_product_key_def item_a_def)
  have m: "main_cycle tick net_item_a (st_missing_a, 2) =
     (fst (main_cycle tick net_item_a (st_missing_a, 2)),
      Inr (fst (projr (snd (main_cycle tick net_item_a (st_missing_a, 2)))),
           snd (projr (snd (main_cycle tick net_item_a (st_missing_a, 2))))))"
    by code_simp
  from reappearance_keeps_missing_since [OF f m l _ k, of 1] f l k show ?thesis
    by auto
qed

text \<open>
  Claim C6: for any key and any run, the restock branch fires at most once (the flag of the
  key goes from not true to true at most once along the states of the run), a flag that is
  true stays true in every state saved later and in the final state, and every notification
  sent is a summary or a NEW alert, so no second restock notification is ever sent.
\<close>

theorem restock_flag_raised_at_most_once:
  assumes "main_loop tm nets (st, c) = (out, r)"
  shows "raises k (st # saved_states out) \<le> 1 \<and>
         (alerted st k \<longrightarrow> (\<forall>s \<in> set (saved_states out). alerted s k)) \<and>
         (\<forall>st' c'. alerted st k \<and> r = Inr (st', c') \<longrightarrow> alerted st' k) \<and>
         (\<forall>e \<in> set out. (\<exists>m. e = Send m) \<longrightarrow> is_summary e \<or> is_new_alert e)"
proof -
  from main_loop_raises [OF assms, of k]
  have a: "raises k (st # saved_states out) \<le> 1"
    and b: "alerted st k \<longrightarrow> (\<forall>s \<in> set (saved_states out). alerted s k)"
    by (simp_all split: if_splits)
  have c: "\<forall>st' c'. alerted st k \<and> r = Inr (st', c') \<longrightarrow> alerted st' k"
    using main_loop_flag_stays assms by blast
  have d: "\<forall>e \<in> set out. (\<exists>m. e = Send m) \<longrightarrow> is_summary e \<or> is_new_alert e"
    using main_loop_sends [OF assms] by blast
  from a b c d show ?thesis by blast
qed

theorem restock_flag_raised_at_most_once_witness:
  "raises ''A'' (load_state_default #
      saved_states (fst (main_loop tick run_a_comes_and_goes (load_state_default, 0)))) = 1 \<and>
   length (saved_states (fst (main_loop tick run_a_comes_and_goes (load_state_default, 0)))) = 5 \<and>
   filter (\<lambda>e. \<not> is_summary e \<and> \<not> is_new_alert e)
     (fst (main_loop tick run_a_comes_and_goes (load_state_default, 0))) =
     [Save \<lparr>seen_products = [(''A'', \<lparr>first_seen = 0, last_seen = 2, missing_since = None\<rparr>)],
            restock_alerted = [], last_total_results = 1\<rparr>,
      Sleep 10,
      Save \<lparr>seen_products = [(''A'', \<lparr>first_seen = 0, last_seen = 2, missing_since = Some 3\<rparr>)],
            restock_alerted = [], last_total_results = 3\<rparr>,
      Sleep 10,
      Save \<lparr>seen_products = [(''A'', \<lparr>first_seen = 0, last_seen = 4, missing_since = Some 3\<rparr>)],
            restock_alerted = [(''A'', True)], last_total_results = 3\<rparr>,
      Sleep 10,
      Save \<lparr>seen_products = [(''A'', \<lparr>first_seen = 0, last_seen = 4, missing_since = Some 3\<rparr>)],
            restock_alerted = [(''A'', True)], last_total_results = 3\<rparr>,
      Sleep 10,
      Save \<lparr>seen_products = [(''A'', \<lparr>first_seen = 0, last_seen = 5, missing_since = Some 3\<rparr>)],
            restock_alerted = [(''A'', True)], last_total_results = 3\<rparr>,
      Sleep 10]"
proof -
  have m: "main_loop tick run_a_comes_and_goes (load_state_default, 0) =
     (fst (main_loop tick run_a_comes_and_goes (load_state_default, 0)),
      snd (main_loop tick run_a_comes_and_goes (load_state_default, 0)))"
    by simp
  have a: "raises ''A'' (load_state_default #
      saved_states (fst (main_loop tick run_a_comes_and_goes (load_state_default, 0)))) = 1"
    by code_simp
  have b: "length (saved_states
      (fst (main_loop tick run_a_comes_and_goes (load_state_default, 0)))) = 5"
    by code_simp
  have c: "filter (\<lambda>e. \<not> is_summary e \<and> \<not> is_new_alert e)
     (fst (main_loop tick run_a_comes_and_goes (load_state_default, 0))) =
     [Save \<lparr>seen_products = [(''A'', \<lparr>first_seen = 0, last_seen = 2, missing_since = None\<rparr>)],
            restock_alerted = [], last_total_results = 1\<rparr>,
      Sleep 10,
      Save \<lparr>seen_products = [(''A'', \<lparr>first_seen = 0, last_seen = 2, missing_since = Some 3\<rparr>)],
            restock_alerted = [], last_total_results = 3\<rparr>,
      Sleep 10,
      Save \<lparr>seen_products = [(''A'', \<lparr>first_seen = 0, last_seen = 4, missing_since = Some 3\<rparr>)],
            restock_alerted = [(''A'', True)], last_total_results = 3\<rparr>,
      Sleep 10,
      Save \<lparr>seen_products = [(''A'', \<lparr>first_seen = 0, last_seen = 4, missing_since = Some 3\<rparr>)],
            restock_alerted = [(''A'', True)], last_total_results = 3\<rparr>,
      Sleep 10,
      Save \<lparr>seen_products = [(''A'', \<lparr>first_seen = 0, last_seen = 5, missing_since = Some 3\<rparr>)],
            restock_alerted = [(''A'', True)], last_total_results = 3\<rparr>,
      Sleep 10]"
    by code_simp
  from restock_flag_raised_at_most_once [OF m, of "''A''"] a b c show ?thesis
    by simp
qed

subsection \<open>New products and the tracked set\<close>

text \<open>
  Claim C5, as stated: every new key of a snapshot gets one NEW alert and is tracked
  afterwards with \<^verbatim>\<open>first_seen\<close> equal to \<^verbatim>\<open>last_seen\<close>. Two things fail. The two time
  stamps are separate clock readings, and \<^verbatim>\<open>last_seen\<close> is read once more by the loop over
  the tracked products: with a clock that advances, item a ends with 0 and 2. And a new
  product without price makes \<^verbatim>\<open>product_to_message\<close> raise: the cycle ends with
  \<^verbatim>\<open>KeyError\<close> and no alert for it.
\<close>

theorem new_item_counterexample:
  "fetch_all_products net_item_a = Inr ([item_a], 1) \<and>
   extract_product_key item_a = ''A'' \<and>
   map_of (seen_products (load_state_default :: nat state)) ''A'' = None \<and>
   \<not> isl (snd (main_cycle tick net_item_a (load_state_default, 0))) \<and>
   map_of (seen_products (fst (projr (snd (main_cycle tick net_item_a (load_state_default, 0))))))
     ''A'' = Some \<lparr>first_seen = 0, last_seen = 2, missing_since = None\<rparr> \<and>
   fetch_all_products net_item_no_price = Inr ([item_no_price], 1) \<and>
   extract_product_key item_no_price = ''C'' \<and>
   main_cycle tick net_item_no_price (load_state_default, 0) =
     ([Send (Summary_message 1 1)], Inl KeyError)"
  by code_simp

text \<open>
  Claim C5, amended: when the NEW message of every new product of the snapshot can be
  rendered (the product has a price object with \<^verbatim>\<open>displayformattedValue\<close>, and its url is
  absent or text), the cycle completes; the NEW alerts it sends are those of the new
  products, one for each new non-empty key, in snapshot order; and each of these keys is
  tracked afterwards with \<^verbatim>\<open>missing_since\<close> unset, \<^verbatim>\<open>first_seen\<close> a clock reading of the cycle
  and \<^verbatim>\<open>last_seen\<close> a later one.
\<close>

theorem new_items_alerted_once_and_tracked:
  assumes "fetch_all_products net = Inr (products, tot)"
    and "\<forall>p \<in> set (fresh_products (fst ` set (seen_products st)) products).
           (\<exists>price. prod_price p = Present price) \<and> prod_url p \<noteq> Ill_typed"
  shows "set (map extract_product_key (fresh_products (fst ` set (seen_products st)) products)) =
           snapshot_codes products - fst ` set (seen_products st) \<and>
         distinct (map extract_product_key (fresh_products (fst ` set (seen_products st)) products)) \<and>
         subseq (fresh_products (fst ` set (seen_products st)) products) products \<and>
         (\<exists>out st' c'. main_cycle tm net (st, c) = (out, Inr (st', c')) \<and>
            filter is_new_alert out =
              map (\<lambda>p. Send (projr (product_to_message p ''NEW'')))
                (fresh_products (fst ` set (seen_products st)) products) \<and>
            (\<forall>k \<in> snapshot_codes products - fst ` set (seen_products st).
               \<exists>a b. c \<le> a \<and> a < b \<and> b < c' \<and>
                 map_of (seen_products st') k =
                   Some \<lparr>first_seen = tm a, last_seen = tm b, missing_since = None\<rparr>))"
proof -
  from assms(2)
  have "\<forall>p \<in> set (fresh_products (fst ` set (seen_products st)) products).
          \<not> isl (product_to_message p ''NEW'')"
    by (simp add: product_to_message_ok)
  from main_cycle_completes [OF assms(1) this, of tm c] obtain out st' c' where
    m: "main_cycle tm net (st, c) = (out, Inr (st', c'))" by blast
  have "\<forall>k \<in> snapshot_codes products - fst ` set (seen_products st).
               \<exists>a b. c \<le> a \<and> a < b \<and> b < c' \<and>
                 map_of (seen_products st') k =
                   Some \<lparr>first_seen = tm a, last_seen = tm b, missing_since = None\<rparr>"
    using main_cycle_new_entry [OF assms(1) m] by blast
  with m main_cycle_new_alerts [OF assms(1) m] show ?thesis
    using fresh_products_codes fresh_products_distinct fresh_products_subseq by blast
qed

theorem new_items_alerted_once_and_tracked_witness:
  "fetch_all_products net_two_pages = Inr ([item_a, item_b], 2) \<and>
   fresh_products (fst ` set (seen_products (load_state_default :: nat state))) [item_a, item_b] =
     [item_a, item_b] \<and>
   prod_price item_a = Present ''Rs.499'' \<and> prod_url item_a = Present ''/p/a'' \<and>
   prod_price item_b = Present ''Rs.799'' \<and> prod_url item_b = Present ''/p/b'' \<and>
   (\<exists>out st' c'. main_cycle tick net_two_pages (load_state_default, 0) = (out, Inr (st', c')) \<and>
      filter is_new_alert out =
        [Send (Product_message ''NEW'' ''https://www.sheinindia.in/p/a'' ''Rs.499''),
         Send (Product_message ''NEW'' ''https://www.sheinindia.in/p/b'' ''Rs.799'')])"
proof -
  have f: "fetch_all_products net_two_pages = Inr ([item_a, item_b], 2)"
    by code_simp
  have fr: "fresh_products (fst ` set (seen_products (load_state_default :: nat state)))
      [item_a, item_b] = [item_a, item_b]"
    by (simp add: load_state_default_def extract_product_key_def item_a_def item_b_def)
  have pa: "prod_price item_a = Present ''Rs.499''" "prod_url item_a = Present ''/p/a''"
    "prod_price item_b = Present ''Rs.799''" "prod_url item_b = Present ''/p/b''"
    by (simp_all add: item_a_def item_b_def)
  have pr: "\<forall>p \<in> set (fresh_products (fst ` set (seen_products (load_state_default :: nat state)))
      [item_a, item_b]). (\<exists>price. prod_price p = Present price) \<and> prod_url p \<noteq> Ill_typed"
    unfolding fr using pa by simp
  have ms: "map (\<lambda>p. Send (projr (product_to_message p ''NEW''))) [item_a, item_b] =
     [Send (Product_message ''NEW'' ''https://www.sheinindia.in/p/a'' ''Rs.499''),
      Send (Product_message ''NEW'' ''https://www.sheinindia.in/p/b'' ''Rs.799'') :: nat effect]"
    by (simp add: product_to_message_def item_a_def item_b_def)
  from new_items_alerted_once_and_tracked [OF f pr, of tick 0] f fr pa ms show ?thesis
    by auto
qed

text \<open>
  Claim C7, as stated: after every cycle a key is in the store if and only if it has been
  observed in a snapshot. That fails for a cycle that raises: item b is observed and its NEW
  alert is sent, then the product without price ends the program, and the only state ever
  saved holds item a alone.
\<close>

theorem observed_key_lost_counterexample:
  "fetch_all_products net_b_c = Inr ([item_b, item_no_price], 2) \<and>
   ''B'' \<in> snapshot_codes [item_b, item_no_price] \<and>
   main_loop tick run_b_then_raise (load_state_default, 0) =
     ([Send (Summary_message 1 1),
       Send (Product_message ''NEW'' ''https://www.sheinindia.in/p/a'' ''Rs.499''),
       Save \<lparr>seen_products = [(''A'', \<lparr>first_seen = 0, last_seen = 2, missing_since = None\<rparr>)],
             restock_alerted = [], last_total_results = 1\<rparr>,
       Sleep 10,
       Send (Summary_message 2 1),
       Send (Product_message ''NEW'' ''https://www.sheinindia.in/p/b'' ''Rs.799'')],
      Inl KeyError) \<and>
   map (\<lambda>s. map fst (seen_products s))
     (saved_states (fst (main_loop tick run_b_then_raise (load_state_default, 0)))) = [[''A'']]"
  by code_simp

text \<open>
  Claim C7, amended. After a run whose cycles have all completed, the tracked keys are those
  of the state the run started from together with the non-empty keys seen in its snapshots.
  No state that a run saves lacks a key the run started with: nothing is ever removed. And
  in a cycle that completes with a snapshot, an entry of the store is kept: with \<^verbatim>\<open>last_seen\<close>
  set to a clock reading of the cycle when its key is in the snapshot; with \<^verbatim>\<open>missing_since\<close>
  set to a clock reading of the cycle when its key is not in the snapshot and
  \<^verbatim>\<open>missing_since\<close> was unset; and unchanged when its key is not in the snapshot and
  \<^verbatim>\<open>missing_since\<close> was set.
\<close>

theorem tracked_codes_grow_by_snapshot:
  assumes "main_loop tm nets (st, c) = (out, r)"
  shows "(\<forall>st' c'. r = Inr (st', c') \<longrightarrow>
            fst ` set (seen_products st') = fst ` set (seen_products st) \<union> observed_codes nets) \<and>
         (\<forall>s \<in> set (saved_states out). fst ` set (seen_products st) \<subseteq> fst ` set (seen_products s)) \<and>
         (\<forall>net1 products tot out1 st1 c1 k i.
            fetch_all_products net1 = Inr (products, tot) \<and>
            main_cycle tm net1 (st, c) = (out1, Inr (st1, c1)) \<and>
            map_of (seen_products st) k = Some i \<longrightarrow>
              (if k \<in> snapshot_codes products
               then \<exists>b. c \<le> b \<and> b < c1 \<and>
                      map_of (seen_products st1) k = Some (i\<lparr>last_seen := tm b\<rparr>)
               else if missing_since i = None
                 then \<exists>b. c \<le> b \<and> b < c1 \<and>
                        map_of (seen_products st1) k = Some (i\<lparr>missing_since := Some (tm b)\<rparr>)
                 else map_of (seen_products st1) k = Some i))"
proof -
  have a: "\<forall>st' c'. r = Inr (st', c') \<longrightarrow>
            fst ` set (seen_products st') = fst ` set (seen_products st) \<union> observed_codes nets"
    using main_loop_codes assms by blast
  have b: "\<forall>s \<in> set (saved_states out).
             fst ` set (seen_products st) \<subseteq> fst ` set (seen_products s)"
    using main_loop_saved_codes [OF assms] by blast
  have e: "if k \<in> snapshot_codes products
           then \<exists>b. c \<le> b \<and> b < c1 \<and>
                  map_of (seen_products st1) k = Some (i\<lparr>last_seen := tm b\<rparr>)
           else if missing_since i = None
             then \<exists>b. c \<le> b \<and> b < c1 \<and>
                    map_of (seen_products st1) k = Some (i\<lparr>missing_since := Some (tm b)\<rparr>)
             else map_of (seen_products st1) k = Some i"
    if f: "fetch_all_products net1 = Inr (products, tot)"
      and m: "main_cycle tm net1 (st, c) = (out1, Inr (st1, c1))"
      and l: "map_of (seen_products st) k = Some i"
    for net1 products tot out1 st1 c1 k i
  proof (cases "k \<in> snapshot_codes products")
    case True
    with main_cycle_present_entry [OF f m l] show ?thesis by simp
  next
    case False
    with main_cycle_absent_entry [OF f m l] show ?thesis by simp
  qed
  show ?thesis
  proof (intro conjI allI impI)
    show "\<And>st' c'. r = Inr (st', c') \<Longrightarrow>
            fst ` set (seen_products st') = fst ` set (seen_products st) \<union> observed_codes nets"
      using a by simp
    show "\<forall>s \<in> set (saved_states out).
            fst ` set (seen_products st) \<subseteq> fst ` set (seen_products s)"
      by (rule b)
    fix net1 products tot out1 st1 c1 k i
    assume h: "fetch_all_products net1 = Inr (products, tot) \<and>
            main_cycle tm net1 (st, c) = (out1, Inr (st1, c1)) \<and>
            map_of (seen_products st) k = Some i"
    from h have f: "fetch_all_products net1 = Inr (products, tot)" by (rule conjunct1)
    from h have m: "main_cycle tm net1 (st, c) = (out1, Inr (st1, c1))"
      by (rule conjunct2 [THEN conjunct1])
    from h have l: "map_of (seen_products st) k = Some i"
      by (rule conjunct2 [THEN conjunct2])
    from e [OF f m l]
    show "if k \<in> snapshot_codes products
          then \<exists>b. c \<le> b \<and> b < c1 \<and>
                 map_of (seen_products st1) k = Some (i\<lparr>last_seen := tm b\<rparr>)
          else if missing_since i = None
            then \<exists>b. c \<le> b \<and> b < c1 \<and>
                   map_of (seen_products st1) k = Some (i\<lparr>missing_since := Some (tm b)\<rparr>)
            else map_of (seen_products st1) k = Some i" .
  qed
qed

theorem tracked_codes_grow_by_snapshot_witness:
  "observed_codes run_with_outage = {''A'', ''B''} \<and>
   \<not> isl (snd (main_loop tick run_with_outage (load_state_default, 0))) \<and>
   fst ` set (seen_products
      (fst (projr (snd (main_loop tick run_with_outage (load_state_default, 0)))))) =
     {''A'', ''B''} \<and>
   fetch_all_products net_total_three = Inr ([], 3) \<and>
   ''A'' \<notin> snapshot_codes [] \<and>
   map_of (seen_products st_tracked_a) ''A'' =
     Some \<lparr>first_seen = 0, last_seen = 2, missing_since = None\<rparr> \<and>
   (\<exists>b. map_of (seen_products
            (fst (projr (snd (main_cycle tick net_total_three (st_tracked_a, 3)))))) ''A'' =
          Some \<lparr>first_seen = 0, last_seen = 2, missing_since = Some b\<rparr>)"
proof -
  have m: "main_loop tick run_with_outage (load_state_default, 0) =
     (fst (main_loop tick run_with_outage (load_state_default, 0)),
      snd (main_loop tick run_with_outage (load_state_default, 0)))"
    by simp
  have r: "snd (main_loop tick run_with_outage (load_state_default, 0)) =
     Inr (fst (projr (snd (main_loop tick run_with_outage (load_state_default, 0)))),
          snd (projr (snd (main_loop tick run_with_outage (load_state_default, 0)))))"
    by code_simp
  have o: "observed_codes run_with_outage = {''A'', ''B''}"
    by code_simp
  have e: "fst ` set (seen_products (load_state_default :: nat state)) = {}"
    by (simp add: load_state_default_def)
  have n: "\<not> isl (snd (main_loop tick run_with_outage (load_state_default, 0)))"
    by code_simp
  from tracked_codes_grow_by_snapshot [OF m] r o e
  have keys: "fst ` set (seen_products
      (fst (projr (snd (main_loop tick run_with_outage (load_state_default, 0)))))) =
     {''A'', ''B''}"
    by (metis sup_bot.left_neutral)
  have f: "fetch_all_products net_total_three = Inr ([], 3)"
    by code_simp
  have k: "''A'' \<notin> snapshot_codes []"
    by simp
  have l: "map_of (seen_products st_tracked_a) ''A'' =
     Some \<lparr>first_seen = 0, last_seen = 2, missing_since = None\<rparr>"
    by (simp add: st_tracked_a_def)
  have m1: "main_loop tick [] (st_tracked_a, 3) = ([], Inr (st_tracked_a, 3))"
    by simp
  have c1: "main_cycle tick net_total_three (st_tracked_a, 3) =
     (fst (main_cycle tick net_total_three (st_tracked_a, 3)),
      Inr (fst (projr (snd (main_cycle tick net_total_three (st_tracked_a, 3)))),
           snd (projr (snd (main_cycle tick net_total_three (st_tracked_a, 3))))))"
    by code_simp
  note t = tracked_codes_grow_by_snapshot [OF m1, THEN conjunct2, THEN conjunct2,
      rule_format, OF conjI [OF f conjI [OF c1 l]]]
  from t k
  have "\<exists>b. map_of (seen_products
            (fst (projr (snd (main_cycle tick net_total_three (st_tracked_a, 3)))))) ''A'' =
          Some \<lparr>first_seen = 0, last_seen = 2, missing_since = Some b\<rparr>"
    by auto
  with o n keys f k l show ?thesis by simp
qed

end
